theory Spec2Isabelle
  imports Main "HOL-Library.AList" "HOL-Library.Char_ord" "HOL-Library.List_Lexorder"
begin

section \<open>Values of the match payload\<close>

text \<open>
  The scraper (\<^verbatim>\<open>src/rib_scraper.py\<close>) works on the JSON document embedded in a match
  page. A JSON value is \<^verbatim>\<open>None\<close>, a bool, an int, a string, a list or a dict with
  string keys; Python dicts keep insertion order, so a dict is an association list.
  JSON floats are left out of the embedding.
\<close>

datatype val =
    VNone
  | VBool bool
  | VInt int
  | VStr string
  | VList "val list"
  | VDict "(string \<times> val) list"

type_synonym dict = "(string \<times> val) list"

text \<open>The exceptions the parsing code can raise.\<close>

datatype error = KeyError | IndexError | TypeError | AttributeError | RequestError

text \<open>
  Python's \<^verbatim>\<open>==\<close> on these values: a bool is the integer 0 or 1, lists compare
  element by element, dicts compare by key whatever the order of the entries.
\<close>

fun py_eq :: "val \<Rightarrow> val \<Rightarrow> bool" where
  "py_eq VNone VNone = True"
| "py_eq (VBool a) (VBool b) = (a = b)"
| "py_eq (VBool a) (VInt b) = ((if a then 1 else 0) = b)"
| "py_eq (VInt a) (VBool b) = (a = (if b then 1 else 0))"
| "py_eq (VInt a) (VInt b) = (a = b)"
| "py_eq (VStr a) (VStr b) = (a = b)"
| "py_eq (VList a) (VList b) = list_all2 py_eq a b"
| "py_eq (VDict a) (VDict b) =
     (length a = length b \<and>
      list_all (\<lambda>kv. case map_of b (fst kv) of None \<Rightarrow> False | Some w \<Rightarrow> py_eq (snd kv) w) a)"
| "py_eq _ _ = False"

text \<open>Truth value of a value in a condition (\<^verbatim>\<open>if x:\<close>).\<close>

fun truthy :: "val \<Rightarrow> bool" where
  "truthy VNone = False"
| "truthy (VBool b) = b"
| "truthy (VInt i) = (i \<noteq> 0)"
| "truthy (VStr s) = (s \<noteq> [])"
| "truthy (VList xs) = (xs \<noteq> [])"
| "truthy (VDict d) = (d \<noteq> [])"

subsection \<open>Dict operations\<close>

text \<open>\<^verbatim>\<open>d[k]\<close> on a dict raises KeyError on a missing key.\<close>

definition getitem :: "dict \<Rightarrow> string \<Rightarrow> error + val" where
  "getitem d k = (case map_of d k of None \<Rightarrow> Inl KeyError | Some v \<Rightarrow> Inr v)"

text \<open>\<^verbatim>\<open>x[k]\<close> with a string key on any value: only a dict can be subscripted so.\<close>

fun subscript :: "val \<Rightarrow> string \<Rightarrow> error + val" where
  "subscript (VDict d) k = getitem d k"
| "subscript _ k = Inl TypeError"

text \<open>
  \<^verbatim>\<open>d[k] = v\<close> replaces the value of a key in place and appends a new key at the end:
  this is \<^const>\<open>AList.update\<close>. \<^verbatim>\<open>d.update(other)\<close> stores the entries of
  \<^verbatim>\<open>other\<close> one after the other.
\<close>

definition dict_update :: "dict \<Rightarrow> dict \<Rightarrow> dict" where
  "dict_update d other = fold (\<lambda>kv. AList.update (fst kv) (snd kv)) other d"

text \<open>\<^verbatim>\<open>del d[k]\<close> raises KeyError on a missing key.\<close>

definition delitem :: "dict \<Rightarrow> string \<Rightarrow> error + dict" where
  "delitem d k = (case map_of d k of None \<Rightarrow> Inl KeyError | Some v \<Rightarrow> Inr (AList.delete k d))"

subsection \<open>Lookup tables\<close>

text \<open>
  The id-to-name tables are dicts keyed by the ids found in the payload. A list or a
  dict is not hashable and cannot be a key (TypeError); two keys are the same key when
  they are equal (\<^verbatim>\<open>True\<close> and \<^verbatim>\<open>1\<close> are).
\<close>

type_synonym table = "(val \<times> val) list"

fun hashable :: "val \<Rightarrow> bool" where
  "hashable (VList xs) = False"
| "hashable (VDict d) = False"
| "hashable _ = True"

fun table_set :: "val \<Rightarrow> val \<Rightarrow> table \<Rightarrow> table" where
  "table_set k v [] = [(k, v)]"
| "table_set k v (p # t) = (if py_eq (fst p) k then (fst p, v) # t else p # table_set k v t)"

definition table_store :: "table \<Rightarrow> val \<Rightarrow> val \<Rightarrow> error + table" where
  "table_store t k v = (if hashable k then Inr (table_set k v t) else Inl TypeError)"

fun table_find :: "val \<Rightarrow> table \<Rightarrow> val option" where
  "table_find k [] = None"
| "table_find k (p # t) = (if py_eq (fst p) k then Some (snd p) else table_find k t)"

definition table_get :: "table \<Rightarrow> val \<Rightarrow> error + val" where
  "table_get t k =
     (if hashable k
      then (case table_find k t of None \<Rightarrow> Inl KeyError | Some v \<Rightarrow> Inr v)
      else Inl TypeError)"

section \<open>The payload\<close>

text \<open>
  \<^verbatim>\<open>self.form\<close> is the \<^verbatim>\<open>pageProps\<close> object of the page. The embedding fixes the
  shape of its sections: \<open>props\<close> holds the top-level entries (\<^verbatim>\<open>matchId\<close>,
  \<^verbatim>\<open>statusCode\<close>), \<open>series\<close> the entries of \<^verbatim>\<open>form['series']\<close> other than its
  two lists, \<open>matches\<close> is \<^verbatim>\<open>form['series']['matches']\<close>, \<open>playerStats\<close> is
  \<^verbatim>\<open>form['series']['playerStats']\<close>, \<open>economies\<close> is
  \<^verbatim>\<open>form['matchDetails']['economies']\<close>, and \<open>weapons\<close>, \<open>agents\<close>, \<open>regions\<close>
  are the lists of \<^verbatim>\<open>form['content']\<close>. A match has its own entries (\<open>entries\<close>) and
  the lists \<^verbatim>\<open>players\<close> and \<^verbatim>\<open>rounds\<close>. What the records hold inside is free: a
  missing key is a KeyError of the model as it is of the code.
\<close>

record match =
  entries :: dict
  players :: "dict list"
  rounds :: "dict list"

record form =
  props :: dict
  series :: dict
  matches :: "match list"
  playerStats :: "dict list"
  economies :: "dict list"
  weapons :: "dict list"
  agents :: "dict list"
  regions :: "dict list"

subsection \<open>Locating the match\<close>

text \<open>
  Every method starts with the same scan (lines 232-237, 328-332, 355-360):
  \<^verbatim>\<open>index\<close> is the position of the first match whose id equals \<^verbatim>\<open>self.match_id\<close>,
  and stays \<^verbatim>\<open>None\<close> when there is none.
\<close>

fun find_match :: "match list \<Rightarrow> val \<Rightarrow> nat \<Rightarrow> error + nat option" where
  "find_match [] mid num = Inr None"
| "find_match (m # ms) mid num =
     (case getitem (entries m) ''id'' of
        Inl e \<Rightarrow> Inl e
      | Inr i \<Rightarrow> if py_eq i mid then Inr (Some num) else find_match ms mid (Suc num))"

text \<open>\<^verbatim>\<open>matches[index]\<close>: a list cannot be indexed by \<^verbatim>\<open>None\<close> (TypeError).\<close>

definition match_at :: "match list \<Rightarrow> nat option \<Rightarrow> error + match" where
  "match_at ms index =
     (case index of
        None \<Rightarrow> Inl TypeError
      | Some n \<Rightarrow> if n < length ms then Inr (ms ! n) else Inl IndexError)"

subsection \<open>Lookup table builders (lines 351-391)\<close>

text \<open>
  \<^verbatim>\<open>table[x['id']] = x['name']\<close> for every entry: the right-hand side is evaluated
  first, then the key, then the store.
\<close>

fun build_table :: "dict list \<Rightarrow> table \<Rightarrow> error + table" where
  "build_table [] t = Inr t"
| "build_table (x # xs) t =
     (case getitem x ''name'' of
        Inl e \<Rightarrow> Inl e
      | Inr name \<Rightarrow>
          (case getitem x ''id'' of
             Inl e \<Rightarrow> Inl e
           | Inr i \<Rightarrow>
               (case table_store t i name of
                  Inl e \<Rightarrow> Inl e
                | Inr t' \<Rightarrow> build_table xs t')))"

definition get_weapon_dict :: "form \<Rightarrow> error + table" where
  "get_weapon_dict f = build_table (weapons f) []"

definition get_agent_dict :: "form \<Rightarrow> error + table" where
  "get_agent_dict f = build_table (agents f) []"

definition get_region_dict :: "form \<Rightarrow> error + table" where
  "get_region_dict f = build_table (regions f) []"

text \<open>\<^verbatim>\<open>player_dict[player['player']['id']] = player['player']['ign']\<close>.\<close>

fun ign_loop :: "dict list \<Rightarrow> table \<Rightarrow> error + table" where
  "ign_loop [] t = Inr t"
| "ign_loop (player # ps) t =
     (case getitem player ''player'' of
        Inl e \<Rightarrow> Inl e
      | Inr p \<Rightarrow>
          (case subscript p ''ign'' of
             Inl e \<Rightarrow> Inl e
           | Inr ign \<Rightarrow>
               (case subscript p ''id'' of
                  Inl e \<Rightarrow> Inl e
                | Inr i \<Rightarrow>
                    (case table_store t i ign of
                       Inl e \<Rightarrow> Inl e
                     | Inr t' \<Rightarrow> ign_loop ps t'))))"

definition get_ign_dict :: "form \<Rightarrow> val \<Rightarrow> error + table" where
  "get_ign_dict f mid =
     (case find_match (matches f) mid 0 of
        Inl e \<Rightarrow> Inl e
      | Inr index \<Rightarrow>
          (case match_at (matches f) index of
             Inl e \<Rightarrow> Inl e
           | Inr m \<Rightarrow> ign_loop (players m) []))"

subsection \<open>Match metadata (lines 229-267)\<close>

text \<open>
  The entries of a dict literal are evaluated in order; the first one that raises
  ends the evaluation. \<open>info_entries\<close> is the literal of lines 241-265, each key with
  the evaluation of its value.
\<close>

fun collect :: "(string \<times> (error + val)) list \<Rightarrow> error + dict" where
  "collect [] = Inr []"
| "collect (kc # rest) =
     (case snd kc of
        Inl e \<Rightarrow> Inl e
      | Inr v \<Rightarrow> (case collect rest of Inl e \<Rightarrow> Inl e | Inr d \<Rightarrow> Inr ((fst kc, v) # d)))"

definition match_field :: "form \<Rightarrow> nat option \<Rightarrow> string \<Rightarrow> error + val" where
  "match_field f index k =
     (case match_at (matches f) index of Inl e \<Rightarrow> Inl e | Inr m \<Rightarrow> getitem (entries m) k)"

definition name_of :: "error + val \<Rightarrow> error + val" where
  "name_of c = (case c of Inl e \<Rightarrow> Inl e | Inr v \<Rightarrow> subscript v ''name'')"

definition info_entries :: "form \<Rightarrow> val \<Rightarrow> nat option \<Rightarrow> table \<Rightarrow> (string \<times> (error + val)) list" where
  "info_entries f mid index regionDict =
     [(''parentEvent'', getitem (series f) ''parentEventName''),
      (''eventName'', getitem (series f) ''eventName''),
      (''eventTime'', getitem (series f) ''startDate''),
      (''eventRegion'',
         (case getitem (series f) ''eventRegionId'' of
            Inl e \<Rightarrow> Inl e
          | Inr r \<Rightarrow> table_get regionDict r)),
      (''bestOf'', getitem (series f) ''bestOf''),
      (''stage'', getitem (series f) ''stage''),
      (''bracket'', getitem (series f) ''bracket''),
      (''team1'', name_of (getitem (series f) ''team1'')),
      (''team2'', name_of (getitem (series f) ''team2'')),
      (''team1SeriesScore'', getitem (series f) ''team1Score''),
      (''team2SeriesScore'', getitem (series f) ''team2Score''),
      (''matchId'', Inr mid),
      (''mapName'', name_of (match_field f index ''map'')),
      (''gameStartTime'', match_field f index ''startDate''),
      (''seriesMatchNumber'', match_field f index ''seriesMatchNumber''),
      (''patchId'', match_field f index ''patchId''),
      (''seriesWinningTeamNumber'', match_field f index ''winningTeamNumber''),
      (''team1MatchScore'', match_field f index ''team1Score''),
      (''team2MatchScore'', match_field f index ''team2Score''),
      (''seriesWinCondition'', match_field f index ''winCondition'')]"

definition get_match_info :: "form \<Rightarrow> val \<Rightarrow> error + dict" where
  "get_match_info f mid =
     (case find_match (matches f) mid 0 of
        Inl e \<Rightarrow> Inl e
      | Inr index \<Rightarrow>
          (case get_region_dict f of
             Inl e \<Rightarrow> Inl e
           | Inr regionDict \<Rightarrow> collect (info_entries f mid index regionDict)))"

section \<open>Joining statistics and economy records (lines 270-321)\<close>

text \<open>
  \<^verbatim>\<open>list(filter(lambda x: x['matchId']==self.match_id, playerStats))\<close>: a new list of
  the stat records of this match.
\<close>

fun filter_stats :: "dict list \<Rightarrow> val \<Rightarrow> error + dict list" where
  "filter_stats [] mid = Inr []"
| "filter_stats (x # xs) mid =
     (case getitem x ''matchId'' of
        Inl e \<Rightarrow> Inl e
      | Inr m \<Rightarrow>
          (case filter_stats xs mid of
             Inl e \<Rightarrow> Inl e
           | Inr ys \<Rightarrow> Inr (if py_eq m mid then x # ys else ys)))"

text \<open>\<^verbatim>\<open>playerStats[j]\<close> raises IndexError past the end of the list.\<close>

definition stat_at :: "dict list \<Rightarrow> nat \<Rightarrow> error + dict" where
  "stat_at ps j = (if j < length ps then Inr (ps ! j) else Inl IndexError)"

text \<open>
  The test of line 297, on stat record \<open>j\<close> and an economy record: the round numbers
  are only read when the player ids are equal.
\<close>

definition key_test :: "dict list \<Rightarrow> nat \<Rightarrow> dict \<Rightarrow> error + bool" where
  "key_test ps j player =
     (case stat_at ps j of
        Inl e \<Rightarrow> Inl e
      | Inr s \<Rightarrow>
          (case getitem s ''playerId'' of
             Inl e \<Rightarrow> Inl e
           | Inr sp \<Rightarrow>
               (case getitem player ''playerId'' of
                  Inl e \<Rightarrow> Inl e
                | Inr pp \<Rightarrow>
                    if \<not> py_eq sp pp then Inr False
                    else
                      (case getitem s ''roundNumber'' of
                         Inl e \<Rightarrow> Inl e
                       | Inr sr \<Rightarrow>
                           (case getitem player ''roundNumber'' of
                              Inl e \<Rightarrow> Inl e
                            | Inr pr \<Rightarrow> Inr (py_eq sr pr))))))"

text \<open>
  Lines 298-311 on the economy record taken from the window (\<open>playerEcon\<close>) and the
  stat record: the economy dict is updated with the stat record, the names are looked
  up and stored, the three ids are deleted. The result is the final content of that
  dict.
\<close>

definition resolve :: "table \<Rightarrow> table \<Rightarrow> table \<Rightarrow> dict \<Rightarrow> dict \<Rightarrow> error + dict" where
  "resolve ignDict agentDict weaponDict playerEcon stat =
     (let r0 = dict_update playerEcon stat in
      case getitem r0 ''playerId'' of
        Inl e \<Rightarrow> Inl e
      | Inr pid \<Rightarrow>
      (case table_get ignDict pid of
        Inl e \<Rightarrow> Inl e
      | Inr ign \<Rightarrow>
      (let r1 = AList.update ''playerIgn'' ign r0 in
      case getitem r1 ''agentId'' of
        Inl e \<Rightarrow> Inl e
      | Inr aid \<Rightarrow>
      (case table_get agentDict aid of
        Inl e \<Rightarrow> Inl e
      | Inr ag \<Rightarrow>
      (let r2 = AList.update ''agent'' ag r1 in
      case getitem r2 ''weaponId'' of
        Inl e \<Rightarrow> Inl e
      | Inr wid \<Rightarrow>
      (case (if truthy wid
             then (case table_get weaponDict wid of
                     Inl e \<Rightarrow> Inl e
                   | Inr wn \<Rightarrow> Inr (AList.update ''weaponName'' wn r2))
             else Inr r2) of
        Inl e \<Rightarrow> Inl e
      | Inr r3 \<Rightarrow>
      (case delitem r3 ''playerId'' of
        Inl e \<Rightarrow> Inl e
      | Inr r4 \<Rightarrow>
      (case delitem r4 ''agentId'' of
        Inl e \<Rightarrow> Inl e
      | Inr r5 \<Rightarrow> delitem r5 ''weaponId''))))))))"

text \<open>
  The economy records are objects shared between \<^verbatim>\<open>form['matchDetails']['economies']\<close>
  and the window \<^verbatim>\<open>econWindow = economy[i:i+numPlayers]\<close>, and the code changes them
  in place. The list \<open>E\<close> of the economy records is the store of these objects, an
  object's address is its position in \<open>E\<close>, and the window is a list of addresses.

  \<open>scan\<close> is the loop \<^verbatim>\<open>for player in econWindow\<close> up to its \<^verbatim>\<open>break\<close>: the
  first record of the window that passes the test, if any.
\<close>

fun scan :: "dict list \<Rightarrow> nat \<Rightarrow> dict list \<Rightarrow> nat list \<Rightarrow> error + nat option" where
  "scan ps j E [] = Inr None"
| "scan ps j E (a # w) =
     (case key_test ps j (E ! a) of
        Inl e \<Rightarrow> Inl e
      | Inr t \<Rightarrow> if t then Inr (Some a) else scan ps j E w)"

text \<open>
  \<^verbatim>\<open>econWindow.index(player)\<close>: the position of the first element equal to
  \<^verbatim>\<open>player\<close>. (Python compares dicts up to the order of their keys; an element before
  \<^verbatim>\<open>player\<close> that equals it in either sense has the same two ids and would have
  ended the loop earlier, see \<open>index_econ_scan\<close>.)
\<close>

definition index_econ :: "dict list \<Rightarrow> nat list \<Rightarrow> nat \<Rightarrow> nat" where
  "index_econ E w a = length (takeWhile (\<lambda>b. E ! b \<noteq> E ! a) w)"

definition pop_at :: "nat list \<Rightarrow> nat \<Rightarrow> nat list" where
  "pop_at w k = take k w @ drop (Suc k) w"

text \<open>
  One pass of the loop over \<open>j\<close> (lines 296-317). The state is the store \<open>E\<close>, the
  window and the two lists of the round. The assignment \<^verbatim>\<open>playerStats[j] = playerEcon\<close>
  rebinds slot \<open>j\<close> of the filtered list, which is local to the call; the slot is not
  read again, since the loop breaks and every \<open>j\<close> is visited once.
\<close>

type_synonym round_state = "dict list \<times> nat list \<times> dict list \<times> dict list"

definition join_stat ::
  "table \<Rightarrow> table \<Rightarrow> table \<Rightarrow> dict list \<Rightarrow> nat \<Rightarrow> round_state \<Rightarrow> error + round_state" where
  "join_stat ignDict agentDict weaponDict ps j st =
     (case st of (E, econWindow, team1Round, team2Round) \<Rightarrow>
      (case scan ps j E econWindow of
         Inl e \<Rightarrow> Inl e
       | Inr None \<Rightarrow> Inr st
       | Inr (Some player) \<Rightarrow>
           (let k = index_econ E econWindow player;
                playerEcon = econWindow ! k;
                econWindow' = pop_at econWindow k
            in case stat_at ps j of
                 Inl e \<Rightarrow> Inl e
               | Inr s \<Rightarrow>
                   (case resolve ignDict agentDict weaponDict (E ! playerEcon) s of
                      Inl e \<Rightarrow> Inl e
                    | Inr r \<Rightarrow>
                        (case getitem r ''teamNumber'' of
                           Inl e \<Rightarrow> Inl e
                         | Inr tn \<Rightarrow>
                             if py_eq tn (VInt 1)
                             then Inr (E[playerEcon := r], econWindow', team1Round @ [r], team2Round)
                             else Inr (E[playerEcon := r], econWindow', team1Round, team2Round @ [r]))))))"

text \<open>The loop \<^verbatim>\<open>for j in range(i, i+numPlayers)\<close>.\<close>

fun join_round ::
  "table \<Rightarrow> table \<Rightarrow> table \<Rightarrow> dict list \<Rightarrow> nat list \<Rightarrow> round_state \<Rightarrow> error + round_state" where
  "join_round ignDict agentDict weaponDict ps [] st = Inr st"
| "join_round ignDict agentDict weaponDict ps (j # js) st =
     (case join_stat ignDict agentDict weaponDict ps j st of
        Inl e \<Rightarrow> Inl e
      | Inr st' \<Rightarrow> join_round ignDict agentDict weaponDict ps js st')"

text \<open>
  The loop \<^verbatim>\<open>for i in range(0, len(playerStats), numPlayers)\<close>, over the list of the
  values of \<open>i\<close>. The slice \<^verbatim>\<open>economy[i:i+numPlayers]\<close> stops at the end of the
  list.
\<close>

definition window :: "dict list \<Rightarrow> nat \<Rightarrow> nat \<Rightarrow> nat list" where
  "window E i numPlayers = [i ..< min (i + numPlayers) (length E)]"

fun join_rounds ::
  "table \<Rightarrow> table \<Rightarrow> table \<Rightarrow> dict list \<Rightarrow> nat \<Rightarrow> nat list \<Rightarrow>
     dict list \<times> dict list list \<times> dict list list \<Rightarrow>
     error + (dict list \<times> dict list list \<times> dict list list)" where
  "join_rounds ignDict agentDict weaponDict ps numPlayers [] acc = Inr acc"
| "join_rounds ignDict agentDict weaponDict ps numPlayers (i # is) acc =
     (case acc of (E, team1Players, team2Players) \<Rightarrow>
      (case join_round ignDict agentDict weaponDict ps [i ..< i + numPlayers]
              (E, window E i numPlayers, [], []) of
         Inl e \<Rightarrow> Inl e
       | Inr (E', w', team1Round, team2Round) \<Rightarrow>
           join_rounds ignDict agentDict weaponDict ps numPlayers is
             (E', team1Players @ [team1Round], team2Players @ [team2Round])))"

text \<open>\<^verbatim>\<open>range(0, n, step)\<close> for a positive step.\<close>

definition range_step :: "nat \<Rightarrow> nat \<Rightarrow> nat list" where
  "range_step n step = map (\<lambda>k. k * step) [0 ..< (n + step - 1) div step]"

text \<open>
  \<open>player_stats_data\<close> returns the two lists of per-round lists, and with them the
  store of the economy records as the call leaves it.
\<close>

definition player_stats_data ::
  "form \<Rightarrow> val \<Rightarrow> error + ((dict list list \<times> dict list list) \<times> dict list)" where
  "player_stats_data f mid =
     (case filter_stats (playerStats f) mid of
        Inl e \<Rightarrow> Inl e
      | Inr ps \<Rightarrow>
      (case get_ign_dict f mid of
        Inl e \<Rightarrow> Inl e
      | Inr ignDict \<Rightarrow>
      (let numPlayers = max (length ignDict) 1 in
      case get_agent_dict f of
        Inl e \<Rightarrow> Inl e
      | Inr agentDict \<Rightarrow>
      (case get_weapon_dict f of
        Inl e \<Rightarrow> Inl e
      | Inr weaponDict \<Rightarrow>
      (case join_rounds ignDict agentDict weaponDict ps numPlayers
              (range_step (length ps) numPlayers) (economies f, [], []) of
        Inl e \<Rightarrow> Inl e
      | Inr (E', team1Players, team2Players) \<Rightarrow>
          Inr ((team1Players, team2Players), E'))))))"

section \<open>Rounds (lines 324-348)\<close>

text \<open>
  \<^verbatim>\<open>playerData[0][num]\<close> raises IndexError when there are fewer windows than rounds.
  A list of player records is stored as such when it is not empty, \<^verbatim>\<open>None\<close> is
  stored otherwise.
\<close>

definition players_value :: "dict list \<Rightarrow> val" where
  "players_value ps = (if ps \<noteq> [] then VList (map VDict ps) else VNone)"

fun attach :: "dict list \<Rightarrow> dict list list \<Rightarrow> dict list list \<Rightarrow> nat \<Rightarrow> error + dict list" where
  "attach [] team1Players team2Players num = Inr []"
| "attach (round # rest) team1Players team2Players num =
     (if num < length team1Players
      then
        (let r1 = AList.update ''team1Players'' (players_value (team1Players ! num)) round in
         if num < length team2Players
         then
           (let r2 = AList.update ''team2Players'' (players_value (team2Players ! num)) r1 in
            case attach rest team1Players team2Players (Suc num) of
              Inl e \<Rightarrow> Inl e
            | Inr rs \<Rightarrow> Inr (r2 # rs))
         else Inl IndexError)
      else Inl IndexError)"

text \<open>The rounds of the located match after the loop of lines 337-346 has changed them.\<close>

definition set_rounds :: "match list \<Rightarrow> nat option \<Rightarrow> dict list \<Rightarrow> match list" where
  "set_rounds ms index rs =
     (case index of None \<Rightarrow> ms | Some n \<Rightarrow> ms[n := (ms ! n)\<lparr>rounds := rs\<rparr>])"

text \<open>
  \<open>get_rounds\<close> returns the list of rounds, which is the list held by the located
  match, its dicts changed in place; the payload as the call leaves it is returned as
  well.
\<close>

definition get_rounds :: "form \<Rightarrow> val \<Rightarrow> error + (dict list \<times> form)" where
  "get_rounds f mid =
     (case find_match (matches f) mid 0 of
        Inl e \<Rightarrow> Inl e
      | Inr index \<Rightarrow>
      (case match_at (matches f) index of
        Inl e \<Rightarrow> Inl e
      | Inr m \<Rightarrow>
      (case player_stats_data f mid of
        Inl e \<Rightarrow> Inl e
      | Inr (playerData, E') \<Rightarrow>
      (case attach (rounds m) (fst playerData) (snd playerData) 0 of
        Inl e \<Rightarrow> Inl e
      | Inr rs \<Rightarrow>
          Inr (rs, f\<lparr>economies := E', matches := set_rounds (matches f) index rs\<rparr>)))))"

section \<open>Rows (lines 394-416)\<close>

text \<open>
  A parser object whose constructor returned early has no attribute at all; otherwise
  it has \<^verbatim>\<open>form\<close>, \<^verbatim>\<open>match_id\<close> and \<^verbatim>\<open>addHeader\<close>.
\<close>

datatype jsonParser = NoAttrs | Parser form val bool

text \<open>\<^verbatim>\<open>self.form.get('statusCode') == 500\<close>.\<close>

definition status_500 :: "form \<Rightarrow> bool" where
  "status_500 f = (case map_of (props f) ''statusCode'' of None \<Rightarrow> False | Some c \<Rightarrow> py_eq c (VInt 500))"

definition header_row :: "dict \<Rightarrow> dict \<Rightarrow> val list" where
  "header_row matchData round = map (\<lambda>kv. VStr (fst kv)) matchData @ map (\<lambda>kv. VStr (fst kv)) round"

definition data_row :: "dict \<Rightarrow> dict \<Rightarrow> val list" where
  "data_row matchData round = map snd matchData @ map snd round"

text \<open>
  \<open>csv_rows\<close> reads \<^verbatim>\<open>self.form\<close> first: AttributeError on an object without
  attributes. A payload that was stored is a dict with the key \<^verbatim>\<open>matchId\<close>, so
  \<^verbatim>\<open>not self.form\<close> is false for it. The parser is returned with the payload as the
  call leaves it.
\<close>

definition csv_rows :: "jsonParser \<Rightarrow> error + (val list list \<times> jsonParser)" where
  "csv_rows p =
     (case p of
        NoAttrs \<Rightarrow> Inl AttributeError
      | Parser f mid addHeader \<Rightarrow>
          if status_500 f then Inr ([], p)
          else
            (case get_match_info f mid of
               Inl e \<Rightarrow> Inl e
             | Inr matchData \<Rightarrow>
                 (case get_rounds f mid of
                    Inl e \<Rightarrow> Inl e
                  | Inr (rs, f') \<Rightarrow>
                      Inr ((if rs = [] then [map snd matchData]
                            else (if addHeader then [header_row matchData (hd rs)] else [])
                                 @ map (data_row matchData) rs),
                           Parser f' mid addHeader))))"

section \<open>Fetching a match page (lines 186-227)\<close>

text \<open>
  The network and the HTML parser are outside the program. A call of
  \<^verbatim>\<open>requests.get\<close> times out, fails with another exception, or gives a response; of a
  response the code reads its status code and the \<^verbatim>\<open>pageProps\<close> of the
  \<^verbatim>\<open>__NEXT_DATA__\<close> script, when the page has one. A response is false in a condition
  when its status is a client or server error (this is \<^verbatim>\<open>Response.__bool__\<close> of
  the requests library).
\<close>

record response =
  status_code :: int
  next_data :: "form option"

datatype attempt = Timeout | Failure | Resp response

definition falsy_response :: "response option \<Rightarrow> bool" where
  "falsy_response r =
     (case r of None \<Rightarrow> True | Some x \<Rightarrow> 400 \<le> status_code x \<and> status_code x < 600)"

text \<open>
  The loop of lines 201-208; \<open>get k\<close> is the outcome of the \<open>k\<close>-th call of
  \<^verbatim>\<open>requests.get(url)\<close>. Only \<^verbatim>\<open>requests.Timeout\<close> is caught.
\<close>

function fetch_loop :: "(nat \<Rightarrow> attempt) \<Rightarrow> nat \<Rightarrow> response option \<Rightarrow> error + response option" where
  "fetch_loop get count response =
     (if falsy_response response \<and> count < 11
      then (case get (count + 1) of
              Timeout \<Rightarrow> fetch_loop get (count + 1) response
            | Failure \<Rightarrow> Inl RequestError
            | Resp r \<Rightarrow> fetch_loop get (count + 1) (Some r))
      else Inr response)"
  by pat_completeness auto
termination
  by (relation "measure (\<lambda>(get, count, response). 11 - count)") auto

text \<open>
  The constructor. \<^verbatim>\<open>response.status_code\<close> on \<^verbatim>\<open>None\<close> is an AttributeError. On
  status 500 and on a page without the script the constructor returns before any
  attribute is assigned.
\<close>

definition init :: "(nat \<Rightarrow> attempt) \<Rightarrow> bool \<Rightarrow> error + jsonParser" where
  "init get addHeader =
     (case fetch_loop get 0 None of
        Inl e \<Rightarrow> Inl e
      | Inr None \<Rightarrow> Inl AttributeError
      | Inr (Some r) \<Rightarrow>
          if status_code r = 500 then Inr NoAttrs
          else
            (case next_data r of
               None \<Rightarrow> Inr NoAttrs
             | Some f \<Rightarrow>
                 (case getitem (props f) ''matchId'' of
                    Inl e \<Rightarrow> Inl e
                  | Inr mid \<Rightarrow> Inr (Parser f mid addHeader))))"

section \<open>Processing a series (lines 115-146)\<close>

text \<open>
  The sort key of a link: \<^verbatim>\<open>x[x.rfind('=')+1:]\<close>, the text after the last \<^verbatim>\<open>=\<close>, and
  the whole link when there is none (\<^verbatim>\<open>rfind\<close> is then -1). The key is a string, and
  strings are ordered character by character; \<^verbatim>\<open>list.sort\<close> is stable, as
  \<^const>\<open>sort_key\<close> is.
\<close>

definition link_key :: "string \<Rightarrow> string" where
  "link_key x = rev (takeWhile (\<lambda>c. c \<noteq> CHR ''='') (rev x))"

definition sort_links :: "string list \<Rightarrow> string list" where
  "sort_links map_links = sort_key link_key map_links"

text \<open>
  The driver object holds \<^verbatim>\<open>fileExists\<close>; \<open>written\<close> is the list of the rows written to
  the csv file so far. \<open>web link k\<close> is the outcome of the \<open>k\<close>-th request for
  \<open>link\<close>.

  \<open>match_rows\<close> is what the loop of lines 131-140 does with one link: it builds the
  parser and calls \<^verbatim>\<open>csv_rows\<close>. The first parser built while \<^verbatim>\<open>fileExists\<close> is
  false gets \<^verbatim>\<open>addHeader=True\<close>, and \<^verbatim>\<open>fileExists\<close> is set at once. The loop
  collects the rows of each match in \<^verbatim>\<open>matches\<close>. It has no exception handler: an
  exception of the constructor or of \<^verbatim>\<open>csv_rows\<close> leaves \<^verbatim>\<open>process_series\<close>.
\<close>

record driver =
  fileExists :: bool
  written :: "val list list"

definition match_rows :: "(nat \<Rightarrow> attempt) \<Rightarrow> bool \<Rightarrow> error + val list list" where
  "match_rows get addHeader =
     (case init get addHeader of
        Inl e \<Rightarrow> Inl e
      | Inr parser \<Rightarrow>
          (case csv_rows parser of Inl e \<Rightarrow> Inl e | Inr (rows, parser') \<Rightarrow> Inr rows))"

fun series_loop ::
  "(string \<Rightarrow> nat \<Rightarrow> attempt) \<Rightarrow> string list \<Rightarrow> bool \<Rightarrow> val list list list \<Rightarrow>
     error + (bool \<times> val list list list)" where
  "series_loop web [] fe ms = Inr (fe, ms)"
| "series_loop web (tail # rest) fe ms =
     (let link = ''https://www.rib.gg'' @ tail in
      case (if \<not> fe then match_rows (web link) True else match_rows (web link) False) of
        Inl e \<Rightarrow> Inl e
      | Inr rows \<Rightarrow> series_loop web rest True (ms @ [rows]))"

text \<open>The rows are written after the loop, match by match and row by row.\<close>

definition process_series ::
  "(string \<Rightarrow> nat \<Rightarrow> attempt) \<Rightarrow> string list \<Rightarrow> driver \<Rightarrow> error + driver" where
  "process_series web hrefs d =
     (case series_loop web (sort_links hrefs) (fileExists d) [] of
        Inl e \<Rightarrow> Inl e
      | Inr (fe, ms) \<Rightarrow> Inr \<lparr>fileExists = fe, written = written d @ concat ms\<rparr>)"

text \<open>
  \<^verbatim>\<open>get_series\<close> calls \<^verbatim>\<open>process_series\<close> for every series row of the results page
  (lines 104-107), again without a handler. (Its \<^verbatim>\<open>while\<close> condition reads
  \<^verbatim>\<open>self.numSeries\<close>, and the constructor assigns \<^verbatim>\<open>self.numMatches\<close>; the browser
  automation around the loop is not modelled.)
\<close>

fun run_series ::
  "(string \<Rightarrow> nat \<Rightarrow> attempt) \<Rightarrow> string list list \<Rightarrow> driver \<Rightarrow> error + driver" where
  "run_series web [] d = Inr d"
| "run_series web (s # ss) d =
     (case process_series web s d of Inl e \<Rightarrow> Inl e | Inr d' \<Rightarrow> run_series web ss d')"

section \<open>Example payloads\<close>

text \<open>
  A series of two players (Alice, team 1; Bob, team 2), used to evaluate the functions
  on concrete inputs. \<open>ex_form i rs stats econ\<close> is the payload of match \<open>i\<close> with the
  rounds, stat records and economy records given.
\<close>

definition ex_series :: dict where
  "ex_series =
     [(''parentEventName'', VStr ''VCT''), (''eventName'', VStr ''Masters''),
      (''startDate'', VStr ''2023-06-11''), (''eventRegionId'', VInt 1), (''bestOf'', VInt 3),
      (''stage'', VStr ''Final''), (''bracket'', VNone),
      (''team1'', VDict [(''name'', VStr ''A'')]), (''team2'', VDict [(''name'', VStr ''B'')]),
      (''team1Score'', VInt 2), (''team2Score'', VInt 0)]"

definition ex_entries :: "int \<Rightarrow> dict" where
  "ex_entries i =
     [(''id'', VInt i), (''map'', VDict [(''name'', VStr ''Ascent'')]), (''startDate'', VStr ''t''),
      (''seriesMatchNumber'', VInt 1), (''patchId'', VInt 3), (''winningTeamNumber'', VInt 1),
      (''team1Score'', VInt 13), (''team2Score'', VInt 5), (''winCondition'', VStr ''x'')]"

definition ex_players :: "dict list" where
  "ex_players =
     [[(''player'', VDict [(''id'', VInt 1), (''ign'', VStr ''Alice'')])],
      [(''player'', VDict [(''id'', VInt 2), (''ign'', VStr ''Bob'')])]]"

definition ex_form :: "int \<Rightarrow> dict list \<Rightarrow> dict list \<Rightarrow> dict list \<Rightarrow> form" where
  "ex_form i rs stats econ =
     \<lparr>props = [(''matchId'', VInt i)], series = ex_series,
      matches = [\<lparr>entries = ex_entries i, players = ex_players, rounds = rs\<rparr>],
      playerStats = stats, economies = econ,
      weapons = [[(''id'', VInt 5), (''name'', VStr ''Vandal'')]],
      agents = [[(''id'', VInt 10), (''name'', VStr ''Jett'')]],
      regions = [[(''id'', VInt 1), (''name'', VStr ''EMEA'')]]\<rparr>"

definition ex_stat :: "int \<Rightarrow> int \<Rightarrow> int \<Rightarrow> int \<Rightarrow> dict" where
  "ex_stat m p r t =
     [(''matchId'', VInt m), (''playerId'', VInt p), (''roundNumber'', VInt r), (''teamNumber'', VInt t)]"

definition ex_econ :: "int \<Rightarrow> int \<Rightarrow> val \<Rightarrow> dict" where
  "ex_econ p r w =
     [(''playerId'', VInt p), (''roundNumber'', VInt r), (''agentId'', VInt 10), (''weaponId'', w),
      (''loadoutValue'', VInt 3900)]"

definition ex_empty :: form where
  "ex_empty = ex_form 1 [] [] []"

definition ex_good :: form where
  "ex_good = ex_form 2 [[(''number'', VInt 1)]] [ex_stat 2 1 1 1, ex_stat 2 2 1 2]
               [ex_econ 2 1 (VInt 5), ex_econ 1 1 VNone]"

definition ex_bad :: form where
  "ex_bad = (ex_form 3 [[(''number'', VInt 1)]] [ex_stat 3 1 1 1, ex_stat 3 2 1 2]
               [ex_econ 1 1 VNone, ex_econ 2 1 VNone])\<lparr>regions := []\<rparr>"

definition ex_web :: "string \<Rightarrow> nat \<Rightarrow> attempt" where
  "ex_web link k =
     (if link = ''https://www.rib.gg/series/9?match=1''
      then Resp \<lparr>status_code = 200, next_data = Some ex_empty\<rparr>
      else if link = ''https://www.rib.gg/series/9?match=2''
      then (if k < 3 then Timeout else Resp \<lparr>status_code = 200, next_data = Some ex_good\<rparr>)
      else if link = ''https://www.rib.gg/series/9?match=3''
      then Resp \<lparr>status_code = 200, next_data = Some ex_bad\<rparr>
      else if link = ''https://www.rib.gg/series/9?match=4''
      then Resp \<lparr>status_code = 200, next_data = Some ex_good\<rparr>
      else if link = ''https://www.rib.gg/series/9?match=5''
      then Resp \<lparr>status_code = 200, next_data = None\<rparr>
      else Resp \<lparr>status_code = 500, next_data = None\<rparr>)"

definition ex_driver :: driver where
  "ex_driver = \<lparr>fileExists = False, written = []\<rparr>"

text \<open>A payload whose two stat records of round 1 are both of player 1.\<close>

definition ex_dup :: form where
  "ex_dup = ex_form 2 [[(''number'', VInt 1)]] [ex_stat 2 1 1 1, ex_stat 2 1 1 1]
              [ex_econ 1 1 VNone, ex_econ 2 1 VNone]"

text \<open>Lookup tables of the example series.\<close>

definition ex_ign :: table where
  "ex_ign = [(VInt 1, VStr ''Alice''), (VInt 2, VStr ''Bob'')]"

definition ex_agent :: table where
  "ex_agent = [(VInt 10, VStr ''Jett'')]"

definition ex_weapon :: table where
  "ex_weapon = [(VInt 5, VStr ''Vandal'')]"

section \<open>Auxiliary notions for the statements\<close>

text \<open>The data rows of a match: one row of metadata values when there is no round.\<close>

definition body_rows :: "dict \<Rightarrow> dict list \<Rightarrow> val list list" where
  "body_rows matchData rs = (if rs = [] then [map snd matchData] else map (data_row matchData) rs)"

text \<open>The metadata keys in the order of the dict literal of lines 241-265.\<close>

definition meta_keys :: "string list" where
  "meta_keys =
     [''parentEvent'', ''eventName'', ''eventTime'', ''eventRegion'', ''bestOf'', ''stage'',
      ''bracket'', ''team1'', ''team2'', ''team1SeriesScore'', ''team2SeriesScore'', ''matchId'',
      ''mapName'', ''gameStartTime'', ''seriesMatchNumber'', ''patchId'',
      ''seriesWinningTeamNumber'', ''team1MatchScore'', ''team2MatchScore'',
      ''seriesWinCondition'']"

text \<open>The link built at line 132.\<close>

definition link_of :: "string \<Rightarrow> string" where
  "link_of tail = ''https://www.rib.gg'' @ tail"

text \<open>
  The join as the specification words it: each stat record of the window, in turn,
  takes the first economy record of the working window whose player id and round
  number match, and that record leaves the working window. \<open>pairing\<close> gives the pairs
  (position of the stat record, address of the economy record) in the order of the
  stat records.
\<close>

definition key_match :: "dict list \<Rightarrow> nat \<Rightarrow> dict \<Rightarrow> bool" where
  "key_match ps j player = (key_test ps j player = Inr True)"

fun pairing :: "dict list \<Rightarrow> dict list \<Rightarrow> nat list \<Rightarrow> nat list \<Rightarrow> (nat \<times> nat) list" where
  "pairing ps E [] w = []"
| "pairing ps E (j # js) w =
     (case List.find (\<lambda>a. key_match ps j (E ! a)) w of
        None \<Rightarrow> pairing ps E js w
      | Some a \<Rightarrow> (j, a) # pairing ps E js (remove1 a w))"

text \<open>
  The pairs of the round whose window starts at \<open>i\<close>, for windows of \<open>n\<close> records;
  round \<open>k\<close> starts at \<open>k * n\<close>.
\<close>

definition round_pairs :: "dict list \<Rightarrow> dict list \<Rightarrow> nat \<Rightarrow> nat \<Rightarrow> (nat \<times> nat) list" where
  "round_pairs ps E n i = pairing ps E [i ..< i + n] (window E i n)"

text \<open>The routing test of line 313, and the presence of the key it reads.\<close>

definition is_team1 :: "dict \<Rightarrow> bool" where
  "is_team1 r = (case map_of r ''teamNumber'' of None \<Rightarrow> False | Some tn \<Rightarrow> py_eq tn (VInt 1))"

definition has_team :: "dict \<Rightarrow> bool" where
  "has_team r = (case map_of r ''teamNumber'' of None \<Rightarrow> False | Some tn \<Rightarrow> True)"

text \<open>
  Stat records are keyed by player id and round number. \<open>keys_unique\<close> says that the
  keys are unique in the window that starts at \<open>i\<close>: no economy record of the window
  is matched by two different stat records of the window. It holds when the stat
  records of the window have pairwise different keys (\<open>same_key\<close>) made of numbers or
  strings (\<open>scalar_key\<close>), see \<open>distinct_keys_unique\<close>.
\<close>

definition keys_unique :: "dict list \<Rightarrow> dict list \<Rightarrow> nat \<Rightarrow> nat \<Rightarrow> bool" where
  "keys_unique ps E n i =
     list_all (\<lambda>a.
       list_all (\<lambda>j.
         list_all (\<lambda>j'. j = j' \<or> \<not> key_match ps j (E ! a) \<or> \<not> key_match ps j' (E ! a))
           [i ..< i + n])
         [i ..< i + n])
       (window E i n)"

definition same_key :: "dict \<Rightarrow> dict \<Rightarrow> bool" where
  "same_key s s' =
     (case map_of s ''playerId'' of None \<Rightarrow> False | Some p \<Rightarrow>
      case map_of s' ''playerId'' of None \<Rightarrow> False | Some p' \<Rightarrow>
      case map_of s ''roundNumber'' of None \<Rightarrow> False | Some r \<Rightarrow>
      case map_of s' ''roundNumber'' of None \<Rightarrow> False | Some r' \<Rightarrow>
        py_eq p p' \<and> py_eq r r')"

definition scalar_key :: "dict \<Rightarrow> bool" where
  "scalar_key s =
     (case map_of s ''playerId'' of None \<Rightarrow> False | Some p \<Rightarrow>
      case map_of s ''roundNumber'' of None \<Rightarrow> False | Some r \<Rightarrow> hashable p \<and> hashable r)"

text \<open>
  The number written by a string of decimal digits, to compare the order of the sort
  keys with the order of the numbers they write.
\<close>

definition is_digit :: "char \<Rightarrow> bool" where
  "is_digit c = (CHR ''0'' \<le> c \<and> c \<le> CHR ''9'')"

definition digit_val :: "char \<Rightarrow> nat" where
  "digit_val c = of_char c - 48"

fun number :: "string \<Rightarrow> nat" where
  "number [] = 0"
| "number (c # cs) = digit_val c * 10 ^ length cs + number cs"

section \<open>Properties\<close>

lemma find_match_bound:
  "find_match ms mid num = Inr (Some n) \<Longrightarrow> num \<le> n \<and> n < num + length ms"
proof (induction ms arbitrary: num)
  case Nil
  then show ?case by simp
next
  case (Cons m ms)
  show ?case
  proof (cases "getitem (entries m) ''id''")
    case (Inl e)
    with Cons.prems show ?thesis by simp
  next
    case (Inr i)
    show ?thesis
    proof (cases "py_eq i mid")
      case True
      with Cons.prems Inr show ?thesis by simp
    next
      case False
      with Cons.prems Inr have "find_match ms mid (Suc num) = Inr (Some n)" by simp
      from Cons.IH[OF this] show ?thesis by simp
    qed
  qed
qed

lemma match_at_found:
  "find_match ms mid 0 = Inr (Some n) \<Longrightarrow> match_at ms (Some n) = Inr (ms ! n)"
  using find_match_bound[of ms mid 0 n] by (simp add: match_at_def)

lemma collect_keys: "collect kcs = Inr d \<Longrightarrow> map fst d = map fst kcs"
  by (induction kcs arbitrary: d) (auto split: sum.splits)

lemma get_match_info_keys:
  assumes "get_match_info f mid = Inr md"
  shows "map fst md = meta_keys"
proof -
  from assms obtain index regionDict where "collect (info_entries f mid index regionDict) = Inr md"
    by (auto simp: get_match_info_def split: sum.splits)
  from collect_keys[OF this] show ?thesis
    by (simp add: info_entries_def meta_keys_def)
qed

lemma attach_length: "attach rs t1 t2 num = Inr rs' \<Longrightarrow> length rs' = length rs"
  by (induction rs arbitrary: num rs') (auto simp: Let_def split: if_splits sum.splits)

lemma csv_rows_shape:
  assumes "csv_rows (Parser f mid h) = Inr (rows, p')"
  shows "(status_500 f \<and> rows = [] \<and> p' = Parser f mid h) \<or>
         (\<not> status_500 f \<and>
          (\<exists>md rs f'. get_match_info f mid = Inr md \<and> get_rounds f mid = Inr (rs, f') \<and>
             p' = Parser f' mid h \<and>
             rows = (if h \<and> rs \<noteq> [] then [header_row md (hd rs)] else []) @ body_rows md rs))"
  using assms unfolding csv_rows_def body_rows_def
  by (auto split: if_splits sum.splits)

lemma series_loop_fails:
  "k < length ls \<Longrightarrow>
   (\<forall>i<k. \<exists>rows. match_rows (web (link_of (ls ! i))) (i = 0 \<and> \<not> fe) = Inr rows) \<Longrightarrow>
   match_rows (web (link_of (ls ! k))) (k = 0 \<and> \<not> fe) = Inl e \<Longrightarrow>
   series_loop web ls fe ms = Inl e"
proof (induction ls arbitrary: k fe ms)
  case Nil
  then show ?case by simp
next
  case (Cons l ls)
  show ?case
  proof (cases k)
    case 0
    with Cons.prems(3) show ?thesis by (auto simp: link_of_def Let_def)
  next
    case (Suc k')
    from Cons.prems(2) Suc obtain rows where r: "match_rows (web (link_of l)) (\<not> fe) = Inr rows"
      by fastforce
    have a: "k' < length ls" using Cons.prems(1) Suc by simp
    have b: "\<forall>i<k'. \<exists>rows. match_rows (web (link_of (ls ! i))) (i = 0 \<and> \<not> True) = Inr rows"
    proof (intro allI impI)
      fix i assume "i < k'"
      then have "Suc i < k" using Suc by simp
      with Cons.prems(2) show "\<exists>rows. match_rows (web (link_of (ls ! i))) (i = 0 \<and> \<not> True) = Inr rows"
        by fastforce
    qed
    have c: "match_rows (web (link_of (ls ! k'))) (k' = 0 \<and> \<not> True) = Inl e"
      using Cons.prems(3) Suc by simp
    from Cons.IH[OF a b c] have "series_loop web ls True (ms @ [rows]) = Inl e" .
    with r show ?thesis by (auto simp: link_of_def Let_def)
  qed
qed

lemma series_loop_rows:
  "series_loop web ls fe ms = Inr (fe', ms') \<Longrightarrow>
   fe' = (fe \<or> ls \<noteq> []) \<and>
   (\<exists>new. ms' = ms @ new \<and> length new = length ls \<and>
      (\<forall>k<length ls. match_rows (web (link_of (ls ! k))) (k = 0 \<and> \<not> fe) = Inr (new ! k)))"
proof (induction ls arbitrary: fe ms)
  case Nil
  then show ?case by simp
next
  case (Cons l ls)
  from Cons.prems obtain rows where
    r: "match_rows (web (link_of l)) (\<not> fe) = Inr rows" and
    rest: "series_loop web ls True (ms @ [rows]) = Inr (fe', ms')"
    by (auto simp: link_of_def Let_def split: if_splits sum.splits)
  from Cons.IH[OF rest] obtain new where
    n: "fe'" "ms' = (ms @ [rows]) @ new" "length new = length ls"
       "\<forall>k<length ls. match_rows (web (link_of (ls ! k))) False = Inr (new ! k)"
    by auto
  have "\<forall>k<length (l # ls). match_rows (web (link_of ((l # ls) ! k))) (k = 0 \<and> \<not> fe) = Inr ((rows # new) ! k)"
  proof (intro allI impI)
    fix k assume k: "k < length (l # ls)"
    show "match_rows (web (link_of ((l # ls) ! k))) (k = 0 \<and> \<not> fe) = Inr ((rows # new) ! k)"
    proof (cases k)
      case 0
      with r show ?thesis by simp
    next
      case (Suc k')
      with k n(4) show ?thesis by simp
    qed
  qed
  with n show ?case by (intro conjI exI[of _ "rows # new"]) auto
qed


lemma get_rounds_empty:
  assumes "find_match (matches f) mid 0 = Inr (Some n)"
      and "rounds (matches f ! n) = []"
      and "player_stats_data f mid = Inr (pd, E')"
  shows "get_rounds f mid = Inr ([], f\<lparr>economies := E', matches := set_rounds (matches f) (Some n) []\<rparr>)"
  using assms match_at_found[OF assms(1)] by (simp add: get_rounds_def)

subsection \<open>A match without rounds\<close>

text \<open>
  Claim C5. For a match whose located rounds list is empty, \<open>csv_rows\<close> returns exactly
  one row, the metadata values in the order of the metadata keys, and no header row,
  whatever the header flag. The hypotheses say that the payload is not tossed and that
  the metadata and the player data are computed without an exception.
\<close>

theorem csv_rows_no_rounds:
  assumes "find_match (matches f) mid 0 = Inr (Some n)"
      and "rounds (matches f ! n) = []"
      and "\<not> status_500 f"
      and "get_match_info f mid = Inr md"
      and "player_stats_data f mid = Inr (pd, E')"
  shows "map fst md = meta_keys \<and>
         (\<exists>f'. csv_rows (Parser f mid addHeader) = Inr ([map snd md], Parser f' mid addHeader))"
  using get_rounds_empty[OF assms(1,2,5)] assms(3,4) get_match_info_keys[OF assms(4)]
  by (simp add: csv_rows_def)

theorem csv_rows_no_rounds_witness:
  "\<exists>md f'. get_match_info ex_empty (VInt 1) = Inr md \<and> map fst md = meta_keys \<and>
     csv_rows (Parser ex_empty (VInt 1) True) = Inr ([map snd md], Parser f' (VInt 1) True)"
proof -
  have 1: "find_match (matches ex_empty) (VInt 1) 0 = Inr (Some 0)" by code_simp
  have 2: "rounds (matches ex_empty ! 0) = []" by code_simp
  have 3: "\<not> status_500 ex_empty" by code_simp
  have "case get_match_info ex_empty (VInt 1) of Inl e \<Rightarrow> False | Inr md \<Rightarrow> True" by code_simp
  then obtain md where 4: "get_match_info ex_empty (VInt 1) = Inr md" by (auto split: sum.splits)
  have 5: "player_stats_data ex_empty (VInt 1) = Inr (([], []), [])" by code_simp
  from csv_rows_no_rounds[OF 1 2 3 4 5, of True] 4 show ?thesis by blast
qed

subsection \<open>Failures in a series\<close>

text \<open>
  Claim C7, as amended. \<open>process_series\<close> has no handler: when the links before
  position \<open>k\<close> of the sorted list give their rows and the link at \<open>k\<close> raises \<open>e\<close>
  (in the constructor or in \<open>csv_rows\<close>), \<open>process_series\<close> raises \<open>e\<close>, and so does
  the loop over the series that called it; no row of the series is written and the
  later links are not processed.
\<close>

theorem failure_ends_series:
  assumes "k < length hrefs"
      and "\<forall>i<k. \<exists>rows. match_rows (web (link_of (sort_links hrefs ! i))) (i = 0 \<and> \<not> fileExists d) = Inr rows"
      and "match_rows (web (link_of (sort_links hrefs ! k))) (k = 0 \<and> \<not> fileExists d) = Inl e"
  shows "process_series web hrefs d = Inl e \<and> run_series web (hrefs # later) d = Inl e"
proof -
  have "k < length (sort_links hrefs)" using assms(1) by (simp add: sort_links_def)
  from series_loop_fails[OF this assms(2,3)]
  have "series_loop web (sort_links hrefs) (fileExists d) [] = Inl e" .
  then show ?thesis by (simp add: process_series_def)
qed

theorem failure_ends_series_witness:
  "process_series ex_web [''/series/9?match=3'', ''/series/9?match=2''] ex_driver = Inl KeyError \<and>
   run_series ex_web [[''/series/9?match=3'', ''/series/9?match=2''], [''/series/9?match=4'']] ex_driver = Inl KeyError"
proof -
  let ?h = "[''/series/9?match=3'', ''/series/9?match=2'']"
  have 1: "Suc 0 < length ?h" by simp
  have "case match_rows (ex_web (link_of (sort_links ?h ! 0))) (\<not> fileExists ex_driver) of Inl e \<Rightarrow> False | Inr r \<Rightarrow> True"
    by code_simp
  then have 2: "\<forall>i<Suc 0. \<exists>rows. match_rows (ex_web (link_of (sort_links ?h ! i))) (i = 0 \<and> \<not> fileExists ex_driver) = Inr rows"
    by (auto split: sum.splits)
  have 3: "match_rows (ex_web (link_of (sort_links ?h ! Suc 0))) (Suc 0 = 0 \<and> \<not> fileExists ex_driver) = Inl KeyError"
    by code_simp
  from failure_ends_series[OF 1 2 3] show ?thesis by blast
qed

text \<open>
  Claim C7 as stated fails: the first link of this series has a payload whose region id
  is not in the region table (a lookup miss), the second link has a payload that
  parses to rows; \<open>process_series\<close> ends with the KeyError of the first.
\<close>

theorem failure_not_caught_counterexample:
  "process_series ex_web [''/series/9?match=3'', ''/series/9?match=4''] ex_driver = Inl KeyError \<and>
   (case match_rows (ex_web (link_of ''/series/9?match=4'')) False of Inl e \<Rightarrow> False | Inr rows \<Rightarrow> rows \<noteq> [])"
  by code_simp

text \<open>
  Claim C8. A response of status 500 and a page without the \<^verbatim>\<open>__NEXT_DATA__\<close> script
  make the constructor return before \<^verbatim>\<open>self.form\<close> is assigned; \<open>csv_rows\<close> then
  raises AttributeError where it reads \<^verbatim>\<open>self.form\<close>, and \<open>process_series\<close> ends
  with it instead of going on with zero rows for the match.
\<close>

theorem soft_failure_raises:
  "init (ex_web (link_of ''/series/9?match=0'')) True = Inr NoAttrs \<and>
   init (ex_web (link_of ''/series/9?match=5'')) True = Inr NoAttrs \<and>
   csv_rows NoAttrs = Inl AttributeError \<and>
   process_series ex_web [''/series/9?match=0'', ''/series/9?match=4''] ex_driver = Inl AttributeError \<and>
   process_series ex_web [''/series/9?match=4'', ''/series/9?match=5''] ex_driver = Inl AttributeError"
  by code_simp

subsection \<open>The header row\<close>

text \<open>
  Claim C6, as amended. When \<open>process_series\<close> returns, \<^verbatim>\<open>fileExists\<close> is set as soon
  as the series has a link, and the rows written are those of its links in sorted
  order, where only the first link gets the header flag, and only if \<^verbatim>\<open>fileExists\<close>
  was false. The rows of a link are none when the payload is tossed for its status
  code 500; otherwise they are the data rows of the match, preceded by a header row
  exactly when the flag is set and the match has a round.
\<close>

theorem header_flag_first_link:
  "(process_series web hrefs d = Inr d' \<longrightarrow>
      fileExists d' = (fileExists d \<or> hrefs \<noteq> []) \<and>
      (\<exists>ms. written d' = written d @ concat ms \<and> length ms = length hrefs \<and>
         (\<forall>k<length hrefs.
            match_rows (web (link_of (sort_links hrefs ! k))) (k = 0 \<and> \<not> fileExists d) = Inr (ms ! k)))) \<and>
   (match_rows get h = Inr rows \<longrightarrow>
      (\<exists>f mid. init get h = Inr (Parser f mid h) \<and>
         (if status_500 f then rows = []
          else (\<exists>md rs f'. get_match_info f mid = Inr md \<and> get_rounds f mid = Inr (rs, f') \<and>
                  rows = (if h \<and> rs \<noteq> [] then [header_row md (hd rs)] else []) @ body_rows md rs))))"
proof (intro conjI impI)
  assume a: "process_series web hrefs d = Inr d'"
  then obtain fe ms where
    l: "series_loop web (sort_links hrefs) (fileExists d) [] = Inr (fe, ms)" and
    d': "d' = \<lparr>fileExists = fe, written = written d @ concat ms\<rparr>"
    by (auto simp: process_series_def split: sum.splits)
  from series_loop_rows[OF l] have
    fe: "fe = (fileExists d \<or> sort_links hrefs \<noteq> [])" and
    ms: "length ms = length (sort_links hrefs)"
        "\<forall>k<length (sort_links hrefs).
           match_rows (web (link_of (sort_links hrefs ! k))) (k = 0 \<and> \<not> fileExists d) = Inr (ms ! k)"
    by auto
  have len: "length (sort_links hrefs) = length hrefs" by (simp add: sort_links_def)
  have ne: "(sort_links hrefs \<noteq> []) = (hrefs \<noteq> [])" using len by (metis length_0_conv)
  show "fileExists d' = (fileExists d \<or> hrefs \<noteq> [])" using fe ne d' by simp
  show "\<exists>ms. written d' = written d @ concat ms \<and> length ms = length hrefs \<and>
         (\<forall>k<length hrefs.
            match_rows (web (link_of (sort_links hrefs ! k))) (k = 0 \<and> \<not> fileExists d) = Inr (ms ! k))"
    using d' ms len by (intro exI[of _ ms]) simp
next
  assume a: "match_rows get h = Inr rows"
  then obtain p p' where i: "init get h = Inr p" and c: "csv_rows p = Inr (rows, p')"
    by (auto simp: match_rows_def split: sum.splits)
  from c obtain f mid h' where p: "p = Parser f mid h'"
    by (cases p) (auto simp: csv_rows_def)
  from i p have "h' = h"
    by (auto simp: init_def split: sum.splits option.splits if_splits)
  with p i c csv_rows_shape[of f mid h rows p']
  show "\<exists>f mid. init get h = Inr (Parser f mid h) \<and>
         (if status_500 f then rows = []
          else (\<exists>md rs f'. get_match_info f mid = Inr md \<and> get_rounds f mid = Inr (rs, f') \<and>
                  rows = (if h \<and> rs \<noteq> [] then [header_row md (hd rs)] else []) @ body_rows md rs))"
    by (intro exI[of _ f] exI[of _ mid]) auto
qed

theorem header_flag_first_link_witness:
  "(\<exists>d' ms. process_series ex_web [''/series/9?match=4'', ''/series/9?match=1''] ex_driver = Inr d' \<and>
      fileExists d' \<and> written d' = concat ms \<and> length ms = 2 \<and>
      match_rows (ex_web (link_of ''/series/9?match=1'')) True = Inr (ms ! 0) \<and>
      match_rows (ex_web (link_of ''/series/9?match=4'')) False = Inr (ms ! 1)) \<and>
   (\<exists>rows f mid md rs f'.
      match_rows (ex_web (link_of ''/series/9?match=4'')) True = Inr rows \<and>
      init (ex_web (link_of ''/series/9?match=4'')) True = Inr (Parser f mid True) \<and>
      get_match_info f mid = Inr md \<and> get_rounds f mid = Inr (rs, f') \<and>
      rows = header_row md (hd rs) # body_rows md rs)"
proof -
  let ?h = "[''/series/9?match=4'', ''/series/9?match=1'']"
  have "case process_series ex_web ?h ex_driver of Inl e \<Rightarrow> False | Inr d' \<Rightarrow> True"
    by code_simp
  then obtain d' where p: "process_series ex_web ?h ex_driver = Inr d'"
    by (auto split: sum.splits)
  have s: "sort_links ?h = [''/series/9?match=1'', ''/series/9?match=4'']" by code_simp
  have fe: "\<not> fileExists ex_driver" "written ex_driver = []" by (simp_all add: ex_driver_def)
  from header_flag_first_link[of ex_web ?h ex_driver d', THEN conjunct1, rule_format, OF p]
  obtain ms where m: "fileExists d'" "written d' = written ex_driver @ concat ms" "length ms = length ?h"
    "\<forall>k<length ?h. match_rows (ex_web (link_of (sort_links ?h ! k))) (k = 0 \<and> \<not> fileExists ex_driver) = Inr (ms ! k)"
    by auto
  have m0: "match_rows (ex_web (link_of ''/series/9?match=1'')) True = Inr (ms ! 0)"
    using m(4)[rule_format, of 0] s fe by simp
  have m1: "match_rows (ex_web (link_of ''/series/9?match=4'')) False = Inr (ms ! 1)"
    using m(4)[rule_format, of 1] s by simp
  have first: "\<exists>d' ms. process_series ex_web ?h ex_driver = Inr d' \<and>
      fileExists d' \<and> written d' = concat ms \<and> length ms = 2 \<and>
      match_rows (ex_web (link_of ''/series/9?match=1'')) True = Inr (ms ! 0) \<and>
      match_rows (ex_web (link_of ''/series/9?match=4'')) False = Inr (ms ! 1)"
    using p m(1,2,3) m0 m1 fe by (intro exI[of _ d'] exI[of _ ms]) simp
  let ?g = "ex_web (link_of ''/series/9?match=4'')"
  have "case match_rows ?g True of Inl e \<Rightarrow> False | Inr r \<Rightarrow> True" by code_simp
  then obtain rows where r: "match_rows ?g True = Inr rows" by (auto split: sum.splits)
  have i: "init ?g True = Inr (Parser ex_good (VInt 2) True)" by code_simp
  have ns: "\<not> status_500 ex_good" by code_simp
  have "case get_rounds ex_good (VInt 2) of Inl e \<Rightarrow> False | Inr x \<Rightarrow> fst x \<noteq> []" by code_simp
  then have ne: "\<And>rs f'. get_rounds ex_good (VInt 2) = Inr (rs, f') \<Longrightarrow> rs \<noteq> []" by auto
  from header_flag_first_link[of ex_web ?h ex_driver d' ?g True rows, THEN conjunct2, rule_format, OF r]
  obtain f mid where x: "init ?g True = Inr (Parser f mid True)"
     "if status_500 f then rows = []
      else (\<exists>md rs f'. get_match_info f mid = Inr md \<and> get_rounds f mid = Inr (rs, f') \<and>
              rows = (if True \<and> rs \<noteq> [] then [header_row md (hd rs)] else []) @ body_rows md rs)"
    by blast
  from x(1) i have fm: "f = ex_good" "mid = VInt 2" by simp_all
  with x(2) ns obtain md rs f' where y: "get_match_info ex_good (VInt 2) = Inr md"
     "get_rounds ex_good (VInt 2) = Inr (rs, f')"
     "rows = (if True \<and> rs \<noteq> [] then [header_row md (hd rs)] else []) @ body_rows md rs"
    by auto
  from ne[OF y(2)] y(3) have "rows = header_row md (hd rs) # body_rows md rs" by simp
  with r i y(1,2) have second: "\<exists>rows f mid md rs f'.
      match_rows ?g True = Inr rows \<and>
      init ?g True = Inr (Parser f mid True) \<and>
      get_match_info f mid = Inr md \<and> get_rounds f mid = Inr (rs, f') \<and>
      rows = header_row md (hd rs) # body_rows md rs"
    by blast
  from first second show ?thesis by blast
qed

text \<open>
  Claim C6 as stated fails: the first match of this series parses and has no round, so
  it takes the header flag and emits its one row of metadata without a header; the
  second match, which would emit a header with the flag, is built without it. None of
  the two rows written begins with the metadata keys.
\<close>

theorem first_match_header_counterexample:
  "(case process_series ex_web [''/series/9?match=1'', ''/series/9?match=4''] ex_driver of
      Inl e \<Rightarrow> False
    | Inr d' \<Rightarrow> length (written d') = 2 \<and>
               \<not> list_ex (\<lambda>row. take 20 row = map VStr meta_keys) (written d')) \<and>
   (case match_rows (ex_web (link_of ''/series/9?match=4'')) True of
      Inl e \<Rightarrow> False
    | Inr rows \<Rightarrow> take 20 (hd rows) = map VStr meta_keys)"
  by code_simp

subsection \<open>Resolving a matched pair\<close>

lemma map_of_fold_update:
  "map_of (fold (\<lambda>kv. AList.update (fst kv) (snd kv)) other d) = map_of d ++ map_of (rev other)"
proof (induction other arbitrary: d)
  case Nil
  then show ?case by simp
next
  case (Cons x xs)
  have "map_of (fold (\<lambda>kv. AList.update (fst kv) (snd kv)) (x # xs) d)
        = map_of (AList.update (fst x) (snd x) d) ++ map_of (rev xs)"
    using Cons.IH by simp
  also have "\<dots> = map_of d ++ map_of (rev (x # xs))"
    by (cases x) (simp add: update_conv' map_add_upd_left)
  finally show ?case .
qed


lemma map_of_rev_distinct: "distinct (map fst l) \<Longrightarrow> map_of (rev l) = map_of l"
proof (induction l)
  case Nil
  then show ?case by simp
next
  case (Cons x xs)
  obtain k v where x: "x = (k, v)" by (cases x)
  from Cons.prems x have nk: "map_of xs k = None"
    by (simp add: map_of_eq_None_iff)
  have "map_of (rev (x # xs)) = map_of [x] ++ map_of (rev xs)"
    by (simp add: map_of_append)
  also have "\<dots> = map_of [x] ++ map_of xs" using Cons by simp
  also have "\<dots> = map_of (x # xs)"
    using nk x by (auto simp: map_add_def fun_eq_iff split: option.splits)
  finally show ?case .
qed

lemma map_of_dict_update:
  "distinct (map fst other) \<Longrightarrow> map_of (dict_update d other) = map_of d ++ map_of other"
  by (simp add: dict_update_def map_of_fold_update map_of_rev_distinct)

lemma getitem_Inr: "getitem d k = Inr v \<longleftrightarrow> map_of d k = Some v"
  by (auto simp: getitem_def split: option.splits)

lemma delitem_Inr: "delitem d k = Inr d' \<Longrightarrow> map_of d' = (map_of d)(k := None)"
  by (auto simp: delitem_def delete_conv' split: option.splits)

lemma resolve_steps:
  assumes "resolve ignDict agentDict weaponDict econ stat = Inr r"
  shows "\<exists>pid ign aid ag wid r3.
           map_of (dict_update econ stat) ''playerId'' = Some pid \<and>
           table_get ignDict pid = Inr ign \<and>
           map_of (dict_update econ stat) ''agentId'' = Some aid \<and>
           table_get agentDict aid = Inr ag \<and>
           map_of (dict_update econ stat) ''weaponId'' = Some wid \<and>
           (if truthy wid
            then (\<exists>wn. table_get weaponDict wid = Inr wn \<and>
                    map_of r3 = (map_of (dict_update econ stat))
                                  (''playerIgn'' \<mapsto> ign, ''agent'' \<mapsto> ag, ''weaponName'' \<mapsto> wn))
            else map_of r3 = (map_of (dict_update econ stat))(''playerIgn'' \<mapsto> ign, ''agent'' \<mapsto> ag)) \<and>
           map_of r = (map_of r3)(''playerId'' := None, ''agentId'' := None, ''weaponId'' := None) \<and>
           (truthy wid \<or> resolve ignDict agentDict wd econ stat = Inr r)"
proof -
  let ?r0 = "dict_update econ stat"
  from assms obtain pid where pid: "getitem ?r0 ''playerId'' = Inr pid"
    by (cases "getitem ?r0 ''playerId''") (simp_all add: resolve_def Let_def)
  from assms pid obtain ign where ign: "table_get ignDict pid = Inr ign"
    by (cases "table_get ignDict pid") (simp_all add: resolve_def Let_def)
  let ?r1 = "AList.update ''playerIgn'' ign ?r0"
  from assms pid ign obtain aid where aid: "getitem ?r1 ''agentId'' = Inr aid"
    by (cases "getitem ?r1 ''agentId''") (simp_all add: resolve_def Let_def)
  from assms pid ign aid obtain ag where ag: "table_get agentDict aid = Inr ag"
    by (cases "table_get agentDict aid") (simp_all add: resolve_def Let_def)
  let ?r2 = "AList.update ''agent'' ag ?r1"
  from assms pid ign aid ag obtain wid where wid: "getitem ?r2 ''weaponId'' = Inr wid"
    by (cases "getitem ?r2 ''weaponId''") (simp_all add: resolve_def Let_def)
  let ?c = "if truthy wid
             then (case table_get weaponDict wid of
                     Inl e \<Rightarrow> Inl e
                   | Inr wn \<Rightarrow> Inr (AList.update ''weaponName'' wn ?r2))
             else Inr ?r2"
  from assms pid ign aid ag wid obtain r3 where r3: "?c = Inr r3"
    by (cases ?c) (simp_all add: resolve_def Let_def)
  from assms pid ign aid ag wid r3 obtain r4 where r4: "delitem r3 ''playerId'' = Inr r4"
    by (cases "delitem r3 ''playerId''") (simp_all add: resolve_def Let_def)
  from assms pid ign aid ag wid r3 r4 obtain r5 where r5: "delitem r4 ''agentId'' = Inr r5"
    by (cases "delitem r4 ''agentId''") (simp_all add: resolve_def Let_def)
  from assms pid ign aid ag wid r3 r4 r5 have r: "delitem r5 ''weaponId'' = Inr r"
    by (simp add: resolve_def Let_def)
  have 1: "map_of ?r0 ''playerId'' = Some pid" using pid by (simp add: getitem_Inr)
  have 2: "map_of ?r0 ''agentId'' = Some aid" using aid by (simp add: getitem_Inr update_conv')
  have 3: "map_of ?r0 ''weaponId'' = Some wid" using wid by (simp add: getitem_Inr update_conv')
  have 4: "if truthy wid
            then (\<exists>wn. table_get weaponDict wid = Inr wn \<and>
                    map_of r3 = (map_of ?r0)(''playerIgn'' \<mapsto> ign, ''agent'' \<mapsto> ag, ''weaponName'' \<mapsto> wn))
            else map_of r3 = (map_of ?r0)(''playerIgn'' \<mapsto> ign, ''agent'' \<mapsto> ag)"
    using r3 by (auto simp: update_conv' split: if_splits sum.splits)
  have 5: "map_of r = (map_of r3)(''playerId'' := None, ''agentId'' := None, ''weaponId'' := None)"
    using delitem_Inr[OF r4] delitem_Inr[OF r5] delitem_Inr[OF r] by simp
  have 6: "truthy wid \<or> resolve ignDict agentDict wd econ stat = Inr r"
  proof (cases "truthy wid")
    case True
    then show ?thesis by simp
  next
    case False
    with r3 have "r3 = ?r2" by simp
    with pid ign aid ag wid False r4 r5 r
    have "resolve ignDict agentDict wd econ stat = Inr r"
      by (simp add: resolve_def Let_def)
    then show ?thesis by simp
  qed
  from 1 ign 2 ag 3 4 5 6 show ?thesis by blast
qed

text \<open>
  Claim C3, as amended. When \<open>resolve\<close> returns a record for an economy record and a
  stat record (a dict has distinct keys): the merged ids \<open>pid\<close>, \<open>aid\<close>, \<open>wid\<close> are
  those of the economy record overridden by those of the stat record; the record has
  \<^verbatim>\<open>playerIgn\<close> and \<^verbatim>\<open>agent\<close> looked up in the tables; when \<open>wid\<close> is truthy it has
  \<^verbatim>\<open>weaponName\<close> looked up in the weapon table; when \<open>wid\<close> is falsy the weapon
  table is not consulted (any table \<open>wd\<close> gives the same record) and the entry
  \<^verbatim>\<open>weaponName\<close> is what the merged input had, so it is absent when neither input
  record had one; the three ids are absent; every other key has the value of the
  economy record overridden by the stat record.
\<close>

theorem resolve_record:
  assumes "resolve ignDict agentDict weaponDict econ stat = Inr r"
      and "distinct (map fst stat)"
  shows "\<exists>pid aid wid ign ag.
           (map_of econ ++ map_of stat) ''playerId'' = Some pid \<and>
           (map_of econ ++ map_of stat) ''agentId'' = Some aid \<and>
           (map_of econ ++ map_of stat) ''weaponId'' = Some wid \<and>
           table_get ignDict pid = Inr ign \<and> table_get agentDict aid = Inr ag \<and>
           map_of r ''playerIgn'' = Some ign \<and> map_of r ''agent'' = Some ag \<and>
           (if truthy wid
            then (\<exists>wn. table_get weaponDict wid = Inr wn \<and> map_of r ''weaponName'' = Some wn)
            else map_of r ''weaponName'' = (map_of econ ++ map_of stat) ''weaponName'' \<and>
                 resolve ignDict agentDict wd econ stat = Inr r) \<and>
           map_of r ''playerId'' = None \<and> map_of r ''agentId'' = None \<and>
           map_of r ''weaponId'' = None \<and>
           (\<forall>k. k \<notin> {''playerIgn'', ''agent'', ''weaponName'', ''playerId'', ''agentId'', ''weaponId''}
                \<longrightarrow> map_of r k = (map_of econ ++ map_of stat) k)"
proof -
  let ?m = "map_of econ ++ map_of stat"
  have m: "map_of (dict_update econ stat) = ?m"
    using assms(2) by (rule map_of_dict_update)
  from resolve_steps[OF assms(1), of wd] obtain pid ign aid ag wid r3 where
    s1: "?m ''playerId'' = Some pid" and s2: "table_get ignDict pid = Inr ign" and
    s3: "?m ''agentId'' = Some aid" and s4: "table_get agentDict aid = Inr ag" and
    s5: "?m ''weaponId'' = Some wid" and
    s6: "if truthy wid
        then (\<exists>wn. table_get weaponDict wid = Inr wn \<and>
                map_of r3 = ?m(''playerIgn'' \<mapsto> ign, ''agent'' \<mapsto> ag, ''weaponName'' \<mapsto> wn))
        else map_of r3 = ?m(''playerIgn'' \<mapsto> ign, ''agent'' \<mapsto> ag)" and
    s7: "map_of r = (map_of r3)(''playerId'' := None, ''agentId'' := None, ''weaponId'' := None)" and
    s8: "truthy wid \<or> resolve ignDict agentDict wd econ stat = Inr r"
    unfolding m by (elim exE conjE) (rule that)
  let ?b = "?m(''playerIgn'' \<mapsto> ign, ''agent'' \<mapsto> ag)"
  have "\<exists>w. map_of r3 = ?b(''weaponName'' := w) \<and>
            (if truthy wid then (\<exists>wn. table_get weaponDict wid = Inr wn \<and> w = Some wn)
             else w = ?m ''weaponName'')"
  proof (cases "truthy wid")
    case True
    with s6 obtain wn where wn: "table_get weaponDict wid = Inr wn"
      "map_of r3 = ?m(''playerIgn'' \<mapsto> ign, ''agent'' \<mapsto> ag, ''weaponName'' \<mapsto> wn)"
      by auto
    show ?thesis
      by (rule exI[of _ "Some wn"]) (simp add: True wn)
  next
    case False
    with s6 have e: "map_of r3 = ?b" by simp
    have "?b(''weaponName'' := ?m ''weaponName'') = ?b"
      by (rule ext) simp
    with e False show ?thesis
      by (intro exI[of _ "?m ''weaponName''"]) simp
  qed
  then obtain w where
    r3: "map_of r3 = ?b(''weaponName'' := w)" and
    w: "if truthy wid then (\<exists>wn. table_get weaponDict wid = Inr wn \<and> w = Some wn)
        else w = ?m ''weaponName''"
    by (elim exE conjE) (rule that)
  have rr: "map_of r = (?b(''weaponName'' := w))
                         (''playerId'' := None, ''agentId'' := None, ''weaponId'' := None)"
    using s7 r3 by simp
  have ids: "map_of r ''playerId'' = None \<and> map_of r ''agentId'' = None \<and> map_of r ''weaponId'' = None"
    unfolding rr by simp
  have names: "map_of r ''playerIgn'' = Some ign \<and> map_of r ''agent'' = Some ag"
    unfolding rr by simp
  have wn: "map_of r ''weaponName'' = w"
    unfolding rr by simp
  have weapon: "if truthy wid
            then (\<exists>wn. table_get weaponDict wid = Inr wn \<and> map_of r ''weaponName'' = Some wn)
            else map_of r ''weaponName'' = ?m ''weaponName'' \<and>
                 resolve ignDict agentDict wd econ stat = Inr r"
    using w s8 unfolding wn by (cases "truthy wid") simp_all
  have rest: "\<forall>k. k \<notin> {''playerIgn'', ''agent'', ''weaponName'', ''playerId'', ''agentId'', ''weaponId''}
                \<longrightarrow> map_of r k = ?m k"
    unfolding rr by simp
  show ?thesis
    apply (rule exI[of _ pid], rule exI[of _ aid], rule exI[of _ wid], rule exI[of _ ign],
           rule exI[of _ ag])
    using s1 s3 s5 s2 s4 names weapon ids rest by (intro conjI) (simp_all only: simp_thms)
qed

theorem resolve_record_witness:
  "\<exists>r. resolve ex_ign ex_agent ex_weapon (ex_econ 1 1 (VInt 0)) (ex_stat 2 1 1 1) = Inr r \<and>
       map_of r ''playerIgn'' = Some (VStr ''Alice'') \<and> map_of r ''agent'' = Some (VStr ''Jett'') \<and>
       map_of r ''weaponName'' = None \<and> resolve ex_ign ex_agent [] (ex_econ 1 1 (VInt 0)) (ex_stat 2 1 1 1) = Inr r \<and>
       map_of r ''playerId'' = None \<and> map_of r ''agentId'' = None \<and> map_of r ''weaponId'' = None \<and>
       map_of r ''loadoutValue'' = Some (VInt 3900) \<and> map_of r ''matchId'' = Some (VInt 2)"
proof -
  let ?e = "ex_econ 1 1 (VInt 0)" and ?s = "ex_stat 2 1 1 1"
  have "case resolve ex_ign ex_agent ex_weapon ?e ?s of Inl e \<Rightarrow> False | Inr r \<Rightarrow> True"
    by code_simp
  then obtain r where r: "resolve ex_ign ex_agent ex_weapon ?e ?s = Inr r"
    by (auto split: sum.splits)
  have d: "distinct (map fst ?s)" by (simp add: ex_stat_def)
  have v: "(map_of ?e ++ map_of ?s) ''playerId'' = Some (VInt 1)"
          "(map_of ?e ++ map_of ?s) ''agentId'' = Some (VInt 10)"
          "(map_of ?e ++ map_of ?s) ''weaponId'' = Some (VInt 0)"
          "(map_of ?e ++ map_of ?s) ''weaponName'' = None"
          "(map_of ?e ++ map_of ?s) ''loadoutValue'' = Some (VInt 3900)"
          "(map_of ?e ++ map_of ?s) ''matchId'' = Some (VInt 2)"
    by (simp_all add: ex_econ_def ex_stat_def map_add_def)
  have t: "table_get ex_ign (VInt 1) = Inr (VStr ''Alice'')"
          "table_get ex_agent (VInt 10) = Inr (VStr ''Jett'')"
    by (simp_all add: table_get_def ex_ign_def ex_agent_def)
  from resolve_record[OF r d, of "[]"] v t r show ?thesis
    by (intro exI[of _ r]) auto
qed

text \<open>
  Claim C3 as stated fails: an economy record that already carries a \<^verbatim>\<open>weaponName\<close>
  entry keeps it in the output record although its \<^verbatim>\<open>weaponId\<close> is 0.
\<close>

theorem weapon_name_kept_counterexample:
  "(case resolve ex_ign ex_agent ex_weapon
           (ex_econ 1 1 (VInt 0) @ [(''weaponName'', VStr ''Classic'')]) (ex_stat 2 1 1 1) of
      Inl e \<Rightarrow> False
    | Inr r \<Rightarrow> map_of r ''weaponName'' = Some (VStr ''Classic''))"
  by code_simp

subsection \<open>The join of one round\<close>

lemma scan_find:
  "scan ps j E w = Inr r \<Longrightarrow> List.find (\<lambda>a. key_match ps j (E ! a)) w = r"
proof (induction w)
  case Nil
  then show ?case by simp
next
  case (Cons a w)
  show ?case
  proof (cases "key_test ps j (E ! a)")
    case (Inl e)
    with Cons.prems show ?thesis by simp
  next
    case (Inr t)
    show ?thesis
    proof (cases t)
      case True
      with Inr Cons.prems show ?thesis by (simp add: key_match_def)
    next
      case False
      with Inr Cons.prems have "scan ps j E w = Inr r" by simp
      from Cons.IH[OF this] Inr False show ?thesis by (simp add: key_match_def)
    qed
  qed
qed

lemma index_econ_scan:
  assumes "List.find (\<lambda>a. key_match ps j (E ! a)) w = Some a"
  shows "w ! index_econ E w a = a \<and> pop_at w (index_econ E w a) = remove1 a w"
  using assms
proof (induction w)
  case Nil
  then show ?case by simp
next
  case (Cons x w)
  show ?case
  proof (cases "key_match ps j (E ! x)")
    case True
    with Cons.prems have "a = x" by simp
    then show ?thesis by (simp add: index_econ_def pop_at_def)
  next
    case False
    with Cons.prems have f: "List.find (\<lambda>a. key_match ps j (E ! a)) w = Some a" by simp
    then have "key_match ps j (E ! a)" by (auto simp: find_Some_iff)
    with False have ne: "E ! x \<noteq> E ! a" "x \<noteq> a" by auto
    from Cons.IH[OF f] ne show ?thesis by (simp add: index_econ_def pop_at_def)
  qed
qed

lemma stat_at_Inr: "stat_at ps j = Inr s \<longleftrightarrow> j < length ps \<and> s = ps ! j"
  by (auto simp: stat_at_def)

lemma join_stat_cases:
  assumes "join_stat ignDict agentDict weaponDict ps j (E, w, t1, t2) = Inr st'"
  shows "(List.find (\<lambda>a. key_match ps j (E ! a)) w = None \<and> st' = (E, w, t1, t2)) \<or>
         (\<exists>a r. List.find (\<lambda>a. key_match ps j (E ! a)) w = Some a \<and> j < length ps \<and>
                resolve ignDict agentDict weaponDict (E ! a) (ps ! j) = Inr r \<and> has_team r \<and>
                st' = (E[a := r], remove1 a w,
                       t1 @ filter is_team1 [r], t2 @ filter (\<lambda>r. \<not> is_team1 r) [r]))"
proof -
  from assms obtain sc where sc: "scan ps j E w = Inr sc"
    by (cases "scan ps j E w") (simp_all add: join_stat_def)
  note f = scan_find[OF sc]
  show ?thesis
  proof (cases sc)
    case None
    with assms sc f show ?thesis by (simp add: join_stat_def)
  next
    case (Some a)
    with f have fa: "List.find (\<lambda>a. key_match ps j (E ! a)) w = Some a" by simp
    from index_econ_scan[OF fa] have
      i: "w ! index_econ E w a = a" "pop_at w (index_econ E w a) = remove1 a w" by simp_all
    from assms sc Some obtain s where s: "stat_at ps j = Inr s"
      by (cases "stat_at ps j") (simp_all add: join_stat_def Let_def)
    then have sj: "j < length ps" "s = ps ! j" by (simp_all add: stat_at_Inr)
    from assms sc Some s i obtain r where
      r: "resolve ignDict agentDict weaponDict (E ! a) s = Inr r"
      by (cases "resolve ignDict agentDict weaponDict (E ! a) s") (simp_all add: join_stat_def Let_def)
    from assms sc Some s i r obtain tn where tn: "getitem r ''teamNumber'' = Inr tn"
      by (cases "getitem r ''teamNumber''") (simp_all add: join_stat_def Let_def)
    then have m: "map_of r ''teamNumber'' = Some tn"
      by (auto simp: getitem_def split: option.splits)
    from assms sc Some s i r tn m
    have "st' = (E[a := r], remove1 a w,
                 t1 @ filter is_team1 [r], t2 @ filter (\<lambda>r. \<not> is_team1 r) [r])"
      by (auto simp: join_stat_def Let_def is_team1_def)
    with fa sj r m show ?thesis by (auto simp: has_team_def)
  qed
qed


lemma pairing_snd_subset: "snd ` set (pairing ps E js w) \<subseteq> set w"
proof (induction js arbitrary: w)
  case Nil
  then show ?case by simp
next
  case (Cons j js)
  show ?case
  proof (cases "List.find (\<lambda>a. key_match ps j (E ! a)) w")
    case None
    with Cons.IH[of w] show ?thesis by simp
  next
    case (Some a)
    then have "a \<in> set w" by (auto simp: find_Some_iff)
    moreover have "set (remove1 a w) \<subseteq> set w" by (rule set_remove1_subset)
    ultimately show ?thesis using Cons.IH[of "remove1 a w"] Some by auto
  qed
qed





lemma pairing_cong:
  "(\<And>a. a \<in> set w \<Longrightarrow> E ! a = E' ! a) \<Longrightarrow> pairing ps E js w = pairing ps E' js w"
proof (induction js arbitrary: w)
  case Nil
  then show ?case by simp
next
  case (Cons j js)
  have f: "List.find (\<lambda>a. key_match ps j (E ! a)) w = List.find (\<lambda>a. key_match ps j (E' ! a)) w"
    using Cons.prems by (intro find_cong) simp_all
  show ?case
  proof (cases "List.find (\<lambda>a. key_match ps j (E' ! a)) w")
    case None
    with f Cons show ?thesis by simp
  next
    case (Some a)
    have "pairing ps E js (remove1 a w) = pairing ps E' js (remove1 a w)"
      using Cons.prems by (intro Cons.IH) (meson notin_set_remove1)
    with f Some show ?thesis by simp
  qed
qed


lemma join_round_pairing:
  assumes "join_round ignDict agentDict weaponDict ps js (E, w, t1, t2) = Inr (E', w', t1', t2')"
      and "distinct w" and "\<forall>a\<in>set w. a < length E"
  shows "length E' = length E \<and>
         (\<forall>a. a \<notin> snd ` set (pairing ps E js w) \<longrightarrow> E' ! a = E ! a) \<and>
         (\<forall>p\<in>set (pairing ps E js w).
            fst p < length ps \<and>
            resolve ignDict agentDict weaponDict (E ! snd p) (ps ! fst p) = Inr (E' ! snd p) \<and>
            has_team (E' ! snd p)) \<and>
         t1' = t1 @ filter is_team1 (map (\<lambda>p. E' ! snd p) (pairing ps E js w)) \<and>
         t2' = t2 @ filter (\<lambda>r. \<not> is_team1 r) (map (\<lambda>p. E' ! snd p) (pairing ps E js w))"
  using assms
proof (induction js arbitrary: E w t1 t2)
  case Nil
  then show ?case by simp
next
  case (Cons j js)
  from Cons.prems(1) obtain st1 where
    st1: "join_stat ignDict agentDict weaponDict ps j (E, w, t1, t2) = Inr st1" and
    rest: "join_round ignDict agentDict weaponDict ps js st1 = Inr (E', w', t1', t2')"
    by (cases "join_stat ignDict agentDict weaponDict ps j (E, w, t1, t2)") simp_all
  from join_stat_cases[OF st1] consider
    (none) "List.find (\<lambda>a. key_match ps j (E ! a)) w = None" "st1 = (E, w, t1, t2)"
  | (some) a r where "List.find (\<lambda>a. key_match ps j (E ! a)) w = Some a" "j < length ps"
      "resolve ignDict agentDict weaponDict (E ! a) (ps ! j) = Inr r" "has_team r"
      "st1 = (E[a := r], remove1 a w, t1 @ filter is_team1 [r], t2 @ filter (\<lambda>r. \<not> is_team1 r) [r])"
    by (elim disjE exE conjE) (erule (1) that(1), erule (4) that(2))
  then show ?case
  proof cases
    case none
    from rest none(2) have "join_round ignDict agentDict weaponDict ps js (E, w, t1, t2) = Inr (E', w', t1', t2')"
      by simp
    from Cons.IH[OF this Cons.prems(2,3)] none(1) show ?thesis by simp
  next
    case some
    let ?E1 = "E[a := r]" and ?w1 = "remove1 a w"
    let ?tr = "pairing ps E js ?w1"
    from some(1) have aw: "a \<in> set w" by (auto simp: find_Some_iff)
    with Cons.prems(3) have al: "a < length E" by simp
    have d1: "distinct ?w1" using Cons.prems(2) by simp
    have b1: "\<forall>b\<in>set ?w1. b < length ?E1"
      using Cons.prems(3) by (auto dest: notin_set_remove1)
    have an: "a \<notin> set ?w1" using Cons.prems(2) by simp
    have same: "\<And>b. b \<in> set ?w1 \<Longrightarrow> ?E1 ! b = E ! b"
      using an by (metis nth_list_update_neq)
    have cong: "pairing ps ?E1 js ?w1 = ?tr"
      by (rule pairing_cong) (rule same)
    from rest some(5) have
      "join_round ignDict agentDict weaponDict ps js
         (?E1, ?w1, t1 @ filter is_team1 [r], t2 @ filter (\<lambda>r. \<not> is_team1 r) [r]) = Inr (E', w', t1', t2')"
      by simp
    from Cons.IH[OF this d1 b1] have
      ih1: "length E' = length ?E1" and
      ih2: "\<forall>b. b \<notin> snd ` set ?tr \<longrightarrow> E' ! b = ?E1 ! b" and
      ih3: "\<forall>p\<in>set ?tr. fst p < length ps \<and>
              resolve ignDict agentDict weaponDict (?E1 ! snd p) (ps ! fst p) = Inr (E' ! snd p) \<and>
              has_team (E' ! snd p)" and
      ih4: "t1' = (t1 @ filter is_team1 [r]) @ filter is_team1 (map (\<lambda>p. E' ! snd p) ?tr)" and
      ih5: "t2' = (t2 @ filter (\<lambda>r. \<not> is_team1 r) [r]) @
                  filter (\<lambda>r. \<not> is_team1 r) (map (\<lambda>p. E' ! snd p) ?tr)"
      unfolding cong by simp_all
    have sub: "snd ` set ?tr \<subseteq> set ?w1" by (rule pairing_snd_subset)
    with an have ant: "a \<notin> snd ` set ?tr" by blast
    with ih2 al have ea: "E' ! a = r" by simp
    have pr: "pairing ps E (j # js) w = (j, a) # ?tr" using some(1) by simp
    have c1: "length E' = length E" using ih1 by simp
    have c2: "\<forall>b. b \<notin> snd ` set (pairing ps E (j # js) w) \<longrightarrow> E' ! b = E ! b"
    proof (intro allI impI)
      fix b assume "b \<notin> snd ` set (pairing ps E (j # js) w)"
      then have "b \<noteq> a" "b \<notin> snd ` set ?tr" unfolding pr by auto
      with ih2 show "E' ! b = E ! b" by simp
    qed
    have c3: "\<forall>p\<in>set (pairing ps E (j # js) w).
            fst p < length ps \<and>
            resolve ignDict agentDict weaponDict (E ! snd p) (ps ! fst p) = Inr (E' ! snd p) \<and>
            has_team (E' ! snd p)"
    proof
      fix p assume "p \<in> set (pairing ps E (j # js) w)"
      then consider "p = (j, a)" | "p \<in> set ?tr" unfolding pr by auto
      then show "fst p < length ps \<and>
            resolve ignDict agentDict weaponDict (E ! snd p) (ps ! fst p) = Inr (E' ! snd p) \<and>
            has_team (E' ! snd p)"
      proof cases
        case 1
        with some(2,3,4) ea show ?thesis by simp
      next
        case 2
        with sub have "snd p \<in> set ?w1" by auto
        from same[OF this] ih3 2 show ?thesis by auto
      qed
    qed
    have c4: "t1' = t1 @ filter is_team1 (map (\<lambda>p. E' ! snd p) (pairing ps E (j # js) w))"
      unfolding pr using ih4 ea by simp
    have c5: "t2' = t2 @ filter (\<lambda>r. \<not> is_team1 r) (map (\<lambda>p. E' ! snd p) (pairing ps E (j # js) w))"
      unfolding pr using ih5 ea by simp
    from c1 c2 c3 c4 c5 show ?thesis by blast
  qed
qed

subsection \<open>The join of all rounds\<close>

lemma window_set: "set (window E i n) = {a. i \<le> a \<and> a < i + n \<and> a < length E}"
  by (auto simp: window_def)

lemma window_distinct: "distinct (window E i n)"
  by (simp add: window_def)

lemma window_length_cong: "length E1 = length E \<Longrightarrow> window E1 i n = window E i n"
  by (simp add: window_def)

lemma round_pairs_snd: "a \<in> snd ` set (round_pairs ps E n i) \<Longrightarrow> i \<le> a \<and> a < i + n \<and> a < length E"
  using pairing_snd_subset[of ps E "[i ..< i + n]" "window E i n"]
  by (auto simp: round_pairs_def window_set)

lemma round_pairs_cong:
  assumes "length E1 = length E" and "\<And>a. i \<le> a \<Longrightarrow> a < i + n \<Longrightarrow> E1 ! a = E ! a"
  shows "round_pairs ps E1 n i = round_pairs ps E n i"
  unfolding round_pairs_def window_length_cong[OF assms(1)]
  by (rule pairing_cong) (simp add: window_set assms(2))

lemma join_round_pairs:
  assumes "join_round ignDict agentDict weaponDict ps [i ..< i + n] (E, window E i n, [], []) = Inr (E', w', t1, t2)"
  shows "length E' = length E \<and>
         (\<forall>a. a \<notin> snd ` set (round_pairs ps E n i) \<longrightarrow> E' ! a = E ! a) \<and>
         (\<forall>p\<in>set (round_pairs ps E n i).
            fst p < length ps \<and>
            resolve ignDict agentDict weaponDict (E ! snd p) (ps ! fst p) = Inr (E' ! snd p) \<and>
            has_team (E' ! snd p)) \<and>
         t1 = filter is_team1 (map (\<lambda>p. E' ! snd p) (round_pairs ps E n i)) \<and>
         t2 = filter (\<lambda>r. \<not> is_team1 r) (map (\<lambda>p. E' ! snd p) (round_pairs ps E n i))"
  using join_round_pairing[OF assms window_distinct] unfolding round_pairs_def
  by (simp add: window_set)


lemma join_rounds_pairs:
  assumes "join_rounds ignDict agentDict weaponDict ps n starts (E, t1s, t2s) = Inr (E', t1s', t2s')"
      and "sorted_wrt (\<lambda>x y. x + n \<le> y) starts"
  shows "length E' = length E \<and>
         (\<forall>a. (\<forall>i\<in>set starts. a \<notin> snd ` set (round_pairs ps E n i)) \<longrightarrow> E' ! a = E ! a) \<and>
         (\<exists>n1 n2. t1s' = t1s @ n1 \<and> t2s' = t2s @ n2 \<and>
            length n1 = length starts \<and> length n2 = length starts \<and>
            (\<forall>k<length starts.
               (\<forall>p\<in>set (round_pairs ps E n (starts ! k)).
                  fst p < length ps \<and>
                  resolve ignDict agentDict weaponDict (E ! snd p) (ps ! fst p) = Inr (E' ! snd p) \<and>
                  has_team (E' ! snd p)) \<and>
               n1 ! k = filter is_team1 (map (\<lambda>p. E' ! snd p) (round_pairs ps E n (starts ! k))) \<and>
               n2 ! k = filter (\<lambda>r. \<not> is_team1 r)
                          (map (\<lambda>p. E' ! snd p) (round_pairs ps E n (starts ! k)))))"
  using assms
proof (induction starts arbitrary: E t1s t2s)
  case Nil
  then show ?case by simp
next
  case (Cons i starts)
  let ?tr = "round_pairs ps E n i"
  from Cons.prems(1) obtain E1 w1 r1 r2 where
    jr: "join_round ignDict agentDict weaponDict ps [i ..< i + n] (E, window E i n, [], []) = Inr (E1, w1, r1, r2)" and
    rest: "join_rounds ignDict agentDict weaponDict ps n starts (E1, t1s @ [r1], t2s @ [r2]) = Inr (E', t1s', t2s')"
    by (auto split: sum.splits)
  from join_round_pairs[OF jr] have
    l1: "length E1 = length E" and
    f1: "\<And>a. a \<notin> snd ` set ?tr \<Longrightarrow> E1 ! a = E ! a" and
    p1: "\<And>p. p \<in> set ?tr \<Longrightarrow> fst p < length ps \<and>
            resolve ignDict agentDict weaponDict (E ! snd p) (ps ! fst p) = Inr (E1 ! snd p) \<and>
            has_team (E1 ! snd p)" and
    r1: "r1 = filter is_team1 (map (\<lambda>p. E1 ! snd p) ?tr)" and
    r2: "r2 = filter (\<lambda>r. \<not> is_team1 r) (map (\<lambda>p. E1 ! snd p) ?tr)"
    by blast+
  from Cons.prems(2) have later: "\<And>i'. i' \<in> set starts \<Longrightarrow> i + n \<le> i'" and
    srt: "sorted_wrt (\<lambda>x y. x + n \<le> y) starts"
    by simp_all
  have same: "\<And>i'. i' \<in> set starts \<Longrightarrow> round_pairs ps E1 n i' = round_pairs ps E n i'"
  proof -
    fix i' assume i': "i' \<in> set starts"
    show "round_pairs ps E1 n i' = round_pairs ps E n i'"
    proof (rule round_pairs_cong[OF l1])
      fix a assume "i' \<le> a" "a < i' + n"
      with later[OF i'] have "\<not> (i \<le> a \<and> a < i + n \<and> a < length E)" by simp
      with round_pairs_snd[of a ps E n i] have "a \<notin> snd ` set ?tr" by blast
      then show "E1 ! a = E ! a" by (rule f1)
    qed
  qed
  from Cons.IH[OF rest srt] obtain n1 n2 where
    l2: "length E' = length E1" and
    f2: "\<And>a. (\<forall>i'\<in>set starts. a \<notin> snd ` set (round_pairs ps E1 n i')) \<Longrightarrow> E' ! a = E1 ! a" and
    t1: "t1s' = (t1s @ [r1]) @ n1" and t2: "t2s' = (t2s @ [r2]) @ n2" and
    ln: "length n1 = length starts" "length n2 = length starts" and
    ih: "\<And>k. k < length starts \<Longrightarrow>
               (\<forall>p\<in>set (round_pairs ps E1 n (starts ! k)).
                  fst p < length ps \<and>
                  resolve ignDict agentDict weaponDict (E1 ! snd p) (ps ! fst p) = Inr (E' ! snd p) \<and>
                  has_team (E' ! snd p)) \<and>
               n1 ! k = filter is_team1 (map (\<lambda>p. E' ! snd p) (round_pairs ps E1 n (starts ! k))) \<and>
               n2 ! k = filter (\<lambda>r. \<not> is_team1 r)
                          (map (\<lambda>p. E' ! snd p) (round_pairs ps E1 n (starts ! k)))"
    by (elim conjE exE) blast
  have keep: "\<And>a. a \<in> snd ` set ?tr \<Longrightarrow> E' ! a = E1 ! a"
  proof -
    fix a assume a: "a \<in> snd ` set ?tr"
    have "\<forall>i'\<in>set starts. a \<notin> snd ` set (round_pairs ps E1 n i')"
    proof
      fix i' assume i': "i' \<in> set starts"
      from round_pairs_snd[OF a] later[OF i'] have "\<not> i' \<le> a" by simp
      with round_pairs_snd[of a ps E n i'] show "a \<notin> snd ` set (round_pairs ps E1 n i')"
        unfolding same[OF i'] by blast
    qed
    then show "E' ! a = E1 ! a" by (rule f2)
  qed
  then have mapeq: "map (\<lambda>p. E' ! snd p) ?tr = map (\<lambda>p. E1 ! snd p) ?tr"
    by (intro map_cong) auto
  have c1: "length E' = length E" using l1 l2 by simp
  have c2: "\<forall>a. (\<forall>i'\<in>set (i # starts). a \<notin> snd ` set (round_pairs ps E n i')) \<longrightarrow> E' ! a = E ! a"
  proof (intro allI impI)
    fix a assume a: "\<forall>i'\<in>set (i # starts). a \<notin> snd ` set (round_pairs ps E n i')"
    then have "\<forall>i'\<in>set starts. a \<notin> snd ` set (round_pairs ps E1 n i')"
      using same by simp
    then have "E' ! a = E1 ! a" by (rule f2)
    moreover from a have "E1 ! a = E ! a" by (intro f1) simp
    ultimately show "E' ! a = E ! a" by simp
  qed
  have c3: "\<forall>k<length (i # starts).
               (\<forall>p\<in>set (round_pairs ps E n ((i # starts) ! k)).
                  fst p < length ps \<and>
                  resolve ignDict agentDict weaponDict (E ! snd p) (ps ! fst p) = Inr (E' ! snd p) \<and>
                  has_team (E' ! snd p)) \<and>
               (r1 # n1) ! k = filter is_team1 (map (\<lambda>p. E' ! snd p) (round_pairs ps E n ((i # starts) ! k))) \<and>
               (r2 # n2) ! k = filter (\<lambda>r. \<not> is_team1 r)
                          (map (\<lambda>p. E' ! snd p) (round_pairs ps E n ((i # starts) ! k)))"
  proof (intro allI impI)
    fix k assume k: "k < length (i # starts)"
    show "(\<forall>p\<in>set (round_pairs ps E n ((i # starts) ! k)).
                  fst p < length ps \<and>
                  resolve ignDict agentDict weaponDict (E ! snd p) (ps ! fst p) = Inr (E' ! snd p) \<and>
                  has_team (E' ! snd p)) \<and>
               (r1 # n1) ! k = filter is_team1 (map (\<lambda>p. E' ! snd p) (round_pairs ps E n ((i # starts) ! k))) \<and>
               (r2 # n2) ! k = filter (\<lambda>r. \<not> is_team1 r)
                          (map (\<lambda>p. E' ! snd p) (round_pairs ps E n ((i # starts) ! k)))"
    proof (cases k)
      case 0
      have "\<forall>p\<in>set ?tr. fst p < length ps \<and>
                  resolve ignDict agentDict weaponDict (E ! snd p) (ps ! fst p) = Inr (E' ! snd p) \<and>
                  has_team (E' ! snd p)"
      proof
        fix p assume p: "p \<in> set ?tr"
        then have "E' ! snd p = E1 ! snd p" by (intro keep) simp
        with p1[OF p] show "fst p < length ps \<and>
                  resolve ignDict agentDict weaponDict (E ! snd p) (ps ! fst p) = Inr (E' ! snd p) \<and>
                  has_team (E' ! snd p)" by simp
      qed
      with 0 r1 r2 show ?thesis by (simp add: mapeq)
    next
      case (Suc k')
      with k have k': "k' < length starts" by simp
      then have mem: "starts ! k' \<in> set starts" by simp
      let ?tk = "round_pairs ps E n (starts ! k')"
      note e = same[OF mem]
      have "\<forall>p\<in>set ?tk. fst p < length ps \<and>
                  resolve ignDict agentDict weaponDict (E ! snd p) (ps ! fst p) = Inr (E' ! snd p) \<and>
                  has_team (E' ! snd p)"
      proof
        fix p assume p: "p \<in> set ?tk"
        then have sp: "snd p \<in> snd ` set ?tk" by simp
        from round_pairs_snd[OF sp] later[OF mem] have "\<not> (i \<le> snd p \<and> snd p < i + n)" by simp
        with round_pairs_snd[of "snd p" ps E n i] have "snd p \<notin> snd ` set ?tr" by blast
        then have "E1 ! snd p = E ! snd p" by (rule f1)
        with ih[OF k'] p show "fst p < length ps \<and>
                  resolve ignDict agentDict weaponDict (E ! snd p) (ps ! fst p) = Inr (E' ! snd p) \<and>
                  has_team (E' ! snd p)" unfolding e by auto
      qed
      with ih[OF k'] Suc show ?thesis unfolding e by simp
    qed
  qed
  show ?case
    apply (intro conjI)
      apply (rule c1)
     apply (rule c2)
    apply (rule exI[of _ "r1 # n1"], rule exI[of _ "r2 # n2"])
    using t1 t2 ln c3 by simp
qed

lemma range_step_length: "length (range_step L n) = (L + n - 1) div n"
  by (simp add: range_step_def)

lemma range_step_nth: "k < length (range_step L n) \<Longrightarrow> range_step L n ! k = k * n"
  by (simp add: range_step_def)

lemma range_step_sorted: "sorted_wrt (\<lambda>x y. x + n \<le> y) (range_step L n)"
proof -
  have "sorted_wrt (\<lambda>x y. x * n + n \<le> y * n) [0 ..< (L + n - 1) div n]"
  proof (rule sorted_wrt_mono_rel[of _ "(<)"])
    fix x y :: nat
    assume "x < y"
    then have "Suc x * n \<le> y * n" by (intro mult_le_mono1) simp
    then show "x * n + n \<le> y * n" by (simp add: add.commute)
  next
    show "sorted_wrt (<) [0 ..< (L + n - 1) div n]" by (rule sorted_wrt_upt)
  qed
  then show ?thesis by (simp add: range_step_def sorted_wrt_map)
qed

lemma player_stats_data_unfold:
  assumes "player_stats_data f mid = Inr ((t1s, t2s), E')"
  shows "\<exists>ps ignDict agentDict weaponDict.
           filter_stats (playerStats f) mid = Inr ps \<and> get_ign_dict f mid = Inr ignDict \<and>
           get_agent_dict f = Inr agentDict \<and> get_weapon_dict f = Inr weaponDict \<and>
           join_rounds ignDict agentDict weaponDict ps (max (length ignDict) 1)
             (range_step (length ps) (max (length ignDict) 1)) (economies f, [], []) = Inr (E', t1s, t2s)"
  using assms unfolding player_stats_data_def Let_def
  by (auto split: sum.splits)

lemma player_stats_rounds:
  assumes "player_stats_data f mid = Inr ((t1s, t2s), E')"
      and "filter_stats (playerStats f) mid = Inr ps"
      and "get_ign_dict f mid = Inr ignDict"
      and "get_agent_dict f = Inr agentDict"
      and "get_weapon_dict f = Inr weaponDict"
      and "n = max (length ignDict) 1"
  shows "length t1s = (length ps + n - 1) div n \<and> length t2s = length t1s \<and>
         length E' = length (economies f) \<and>
         (\<forall>a. (\<forall>k<length t1s. a \<notin> snd ` set (round_pairs ps (economies f) n (k * n)))
               \<longrightarrow> E' ! a = economies f ! a) \<and>
         (\<forall>k<length t1s.
            (\<forall>p\<in>set (round_pairs ps (economies f) n (k * n)).
               fst p < length ps \<and>
               resolve ignDict agentDict weaponDict (economies f ! snd p) (ps ! fst p) = Inr (E' ! snd p) \<and>
               has_team (E' ! snd p)) \<and>
            t1s ! k = filter is_team1 (map (\<lambda>p. E' ! snd p) (round_pairs ps (economies f) n (k * n))) \<and>
            t2s ! k = filter (\<lambda>r. \<not> is_team1 r)
                        (map (\<lambda>p. E' ! snd p) (round_pairs ps (economies f) n (k * n))))"
proof -
  let ?E = "economies f" and ?st = "range_step (length ps) n"
  from player_stats_data_unfold[OF assms(1)] assms(2-6)
  have jr: "join_rounds ignDict agentDict weaponDict ps n ?st (?E, [], []) = Inr (E', t1s, t2s)"
    by auto
  from join_rounds_pairs[OF jr range_step_sorted] obtain n1 n2 where
    l: "length E' = length ?E" and
    fr: "\<And>a. (\<forall>i\<in>set ?st. a \<notin> snd ` set (round_pairs ps ?E n i)) \<Longrightarrow> E' ! a = ?E ! a" and
    t: "t1s = [] @ n1" "t2s = [] @ n2" "length n1 = length ?st" "length n2 = length ?st" and
    ks: "\<And>k. k < length ?st \<Longrightarrow>
               (\<forall>p\<in>set (round_pairs ps ?E n (?st ! k)).
                  fst p < length ps \<and>
                  resolve ignDict agentDict weaponDict (?E ! snd p) (ps ! fst p) = Inr (E' ! snd p) \<and>
                  has_team (E' ! snd p)) \<and>
               n1 ! k = filter is_team1 (map (\<lambda>p. E' ! snd p) (round_pairs ps ?E n (?st ! k))) \<and>
               n2 ! k = filter (\<lambda>r. \<not> is_team1 r)
                          (map (\<lambda>p. E' ! snd p) (round_pairs ps ?E n (?st ! k)))"
    by (elim conjE exE) blast
  from t have len: "length t1s = length ?st" "length t2s = length t1s" and e: "n1 = t1s" "n2 = t2s"
    by simp_all
  have c1: "length t1s = (length ps + n - 1) div n" using len by (simp add: range_step_length)
  have c4: "\<forall>a. (\<forall>k<length t1s. a \<notin> snd ` set (round_pairs ps ?E n (k * n))) \<longrightarrow> E' ! a = ?E ! a"
  proof (intro allI impI)
    fix a assume a: "\<forall>k<length t1s. a \<notin> snd ` set (round_pairs ps ?E n (k * n))"
    have "\<forall>i\<in>set ?st. a \<notin> snd ` set (round_pairs ps ?E n i)"
    proof
      fix i assume "i \<in> set ?st"
      then obtain k where "k < length ?st" "?st ! k = i" by (auto simp: in_set_conv_nth)
      with a len range_step_nth[of k "length ps" n]
      show "a \<notin> snd ` set (round_pairs ps ?E n i)" by auto
    qed
    then show "E' ! a = ?E ! a" by (rule fr)
  qed
  have c5: "\<forall>k<length t1s.
            (\<forall>p\<in>set (round_pairs ps ?E n (k * n)).
               fst p < length ps \<and>
               resolve ignDict agentDict weaponDict (?E ! snd p) (ps ! fst p) = Inr (E' ! snd p) \<and>
               has_team (E' ! snd p)) \<and>
            t1s ! k = filter is_team1 (map (\<lambda>p. E' ! snd p) (round_pairs ps ?E n (k * n))) \<and>
            t2s ! k = filter (\<lambda>r. \<not> is_team1 r)
                        (map (\<lambda>p. E' ! snd p) (round_pairs ps ?E n (k * n)))"
  proof (intro allI impI)
    fix k assume "k < length t1s"
    then have k: "k < length ?st" using len by simp
    from ks[OF k] show "(\<forall>p\<in>set (round_pairs ps ?E n (k * n)).
               fst p < length ps \<and>
               resolve ignDict agentDict weaponDict (?E ! snd p) (ps ! fst p) = Inr (E' ! snd p) \<and>
               has_team (E' ! snd p)) \<and>
            t1s ! k = filter is_team1 (map (\<lambda>p. E' ! snd p) (round_pairs ps ?E n (k * n))) \<and>
            t2s ! k = filter (\<lambda>r. \<not> is_team1 r)
                        (map (\<lambda>p. E' ! snd p) (round_pairs ps ?E n (k * n)))"
      unfolding range_step_nth[OF k] e .
  qed
  from c1 len(2) l c4 c5 show ?thesis by blast
qed



subsection \<open>The removal join\<close>


lemma py_eq_scalar:
  "hashable a \<Longrightarrow> hashable b \<Longrightarrow> py_eq a c \<Longrightarrow> py_eq b c \<Longrightarrow> py_eq a b"
  by (cases a; cases b; cases c) (auto split: if_splits)

lemma key_match_iff:
  "key_match ps j e \<longleftrightarrow>
     j < length ps \<and>
     (\<exists>sp pp sr pr.
        map_of (ps ! j) ''playerId'' = Some sp \<and> map_of e ''playerId'' = Some pp \<and> py_eq sp pp \<and>
        map_of (ps ! j) ''roundNumber'' = Some sr \<and> map_of e ''roundNumber'' = Some pr \<and>
        py_eq sr pr)"
  unfolding key_match_def key_test_def stat_at_def getitem_def
  by (auto split: option.splits)

lemma distinct_keys_unique:
  assumes "\<forall>j j'. i \<le> j \<and> j < i + n \<and> i \<le> j' \<and> j' < i + n \<and> j \<noteq> j'
                  \<longrightarrow> \<not> same_key (ps ! j) (ps ! j')"
      and "\<forall>j. i \<le> j \<and> j < i + n \<and> j < length ps \<longrightarrow> scalar_key (ps ! j)"
  shows "keys_unique ps E n i"
proof -
  have "j = j' \<or> \<not> key_match ps j (E ! a) \<or> \<not> key_match ps j' (E ! a)"
    if j: "i \<le> j" "j < i + n" and j': "i \<le> j'" "j' < i + n" for a j j'
  proof (rule ccontr)
    assume "\<not> (j = j' \<or> \<not> key_match ps j (E ! a) \<or> \<not> key_match ps j' (E ! a))"
    then have ne: "j \<noteq> j'" and m: "key_match ps j (E ! a)" and m': "key_match ps j' (E ! a)"
      by auto
    from m obtain sp pp sr pr where
      a: "j < length ps" "map_of (ps ! j) ''playerId'' = Some sp" "map_of (E ! a) ''playerId'' = Some pp"
         "py_eq sp pp" "map_of (ps ! j) ''roundNumber'' = Some sr"
         "map_of (E ! a) ''roundNumber'' = Some pr" "py_eq sr pr"
      unfolding key_match_iff by blast
    from m' obtain sp' sr' where
      b: "j' < length ps" "map_of (ps ! j') ''playerId'' = Some sp'" "py_eq sp' pp"
         "map_of (ps ! j') ''roundNumber'' = Some sr'" "py_eq sr' pr"
      unfolding key_match_iff using a(3,6) by auto
    from assms(2) j a(1) have "scalar_key (ps ! j)" by blast
    with a(2,5) have h: "hashable sp" "hashable sr" by (simp_all add: scalar_key_def)
    from assms(2) j' b(1) have "scalar_key (ps ! j')" by blast
    with b(2,4) have h': "hashable sp'" "hashable sr'" by (simp_all add: scalar_key_def)
    have "py_eq sp sp'" "py_eq sr sr'"
      using py_eq_scalar[OF h(1) h'(1) a(4) b(3)] py_eq_scalar[OF h(2) h'(2) a(7) b(5)]
      by simp_all
    then have "same_key (ps ! j) (ps ! j')"
      using a(2,5) b(2,4) by (simp add: same_key_def)
    with assms(1) j j' ne show False by blast
  qed
  then show ?thesis
    unfolding keys_unique_def by (simp add: list_all_iff)
qed


lemma duplicate_keys_not_unique:
  "\<not> keys_unique (playerStats ex_dup) (economies ex_dup) 2 0"
  by code_simp



subsection \<open>Routing by team\<close>

text \<open>
  Claim C4. For every round \<open>k\<close> of \<open>player_stats_data\<close>, let \<open>rs\<close> be the resolved
  records of the round (each the result of \<open>resolve\<close> on a pair of the join). Every
  record of \<open>rs\<close> has a \<^verbatim>\<open>teamNumber\<close>; the team 1 list of the round is the records
  of \<open>rs\<close> whose \<^verbatim>\<open>teamNumber\<close> equals 1 and the team 2 list is all the others, in
  order; no record is in both lists and the two lists together have as many records
  as \<open>rs\<close>.
\<close>

theorem team_partition:
  assumes "player_stats_data f mid = Inr ((team1Players, team2Players), E')"
      and "filter_stats (playerStats f) mid = Inr ps"
      and "get_ign_dict f mid = Inr ignDict"
      and "get_agent_dict f = Inr agentDict"
      and "get_weapon_dict f = Inr weaponDict"
      and "n = max (length ignDict) 1"
      and "k < length team1Players"
      and "tr = round_pairs ps (economies f) n (k * n)"
      and "rs = map (\<lambda>p. E' ! snd p) tr"
  shows "(\<forall>p\<in>set tr. resolve ignDict agentDict weaponDict (economies f ! snd p) (ps ! fst p)
                        = Inr (E' ! snd p)) \<and>
         list_all has_team rs \<and>
         team1Players ! k = filter is_team1 rs \<and>
         team2Players ! k = filter (\<lambda>r. \<not> is_team1 r) rs \<and>
         set (team1Players ! k) \<inter> set (team2Players ! k) = {} \<and>
         length (team1Players ! k) + length (team2Players ! k) = length rs"
proof -
  from player_stats_rounds[OF assms(1-6)] assms(7) have
    pairs: "\<forall>p\<in>set tr. fst p < length ps \<and>
              resolve ignDict agentDict weaponDict (economies f ! snd p) (ps ! fst p) = Inr (E' ! snd p) \<and>
              has_team (E' ! snd p)" and
    out: "team1Players ! k = filter is_team1 rs" "team2Players ! k = filter (\<lambda>r. \<not> is_team1 r) rs"
    unfolding assms(8,9) by blast+
  have 1: "\<forall>p\<in>set tr. resolve ignDict agentDict weaponDict (economies f ! snd p) (ps ! fst p)
                        = Inr (E' ! snd p)"
    using pairs by blast
  have 2: "list_all has_team rs"
    using pairs unfolding assms(9) by (simp add: list_all_iff)
  have 3: "set (team1Players ! k) \<inter> set (team2Players ! k) = {}"
    unfolding out by auto
  have 4: "length (team1Players ! k) + length (team2Players ! k) = length rs"
    unfolding out by (rule sum_length_filter_compl)
  from 1 2 out 3 4 show ?thesis by blast
qed


theorem team_partition_witness:
  "\<exists>t1 t2 E'. player_stats_data ex_good (VInt 2) = Inr ((t1, t2), E') \<and>
     resolve ex_ign ex_agent ex_weapon (economies ex_good ! 1) (playerStats ex_good ! 0) = Inr (E' ! 1) \<and>
     resolve ex_ign ex_agent ex_weapon (economies ex_good ! 0) (playerStats ex_good ! 1) = Inr (E' ! 0) \<and>
     list_all has_team [E' ! 1, E' ! 0] \<and>
     t1 ! 0 = filter is_team1 [E' ! 1, E' ! 0] \<and>
     t2 ! 0 = filter (\<lambda>r. \<not> is_team1 r) [E' ! 1, E' ! 0] \<and>
     set (t1 ! 0) \<inter> set (t2 ! 0) = {} \<and>
     length (t1 ! 0) + length (t2 ! 0) = length [E' ! 1, E' ! 0]"
proof -
  let ?ps = "playerStats ex_good" and ?E = "economies ex_good"
  have "case player_stats_data ex_good (VInt 2) of Inl e \<Rightarrow> False
        | Inr x \<Rightarrow> length (fst (fst x)) = 1"
    by code_simp
  then obtain t1 t2 E' where h1: "player_stats_data ex_good (VInt 2) = Inr ((t1, t2), E')"
    and len: "length t1 = 1"
    by (cases "player_stats_data ex_good (VInt 2)") auto
  have h2: "filter_stats (playerStats ex_good) (VInt 2) = Inr ?ps" by code_simp
  have h3: "get_ign_dict ex_good (VInt 2) = Inr ex_ign" by code_simp
  have h3a: "get_agent_dict ex_good = Inr ex_agent" by code_simp
  have h3w: "get_weapon_dict ex_good = Inr ex_weapon" by code_simp
  have h4: "2 = max (length ex_ign) 1" by code_simp
  have h5: "0 < length t1" using len by simp
  have tr: "round_pairs ?ps ?E 2 0 = [(0, 1), (1, 0)]" by code_simp
  have h6: "[(0, 1), (1, 0)] = round_pairs ?ps ?E 2 (0 * 2)" using tr by simp
  have h7: "[E' ! 1, E' ! 0] = map (\<lambda>p. E' ! snd p) [(0::nat, 1::nat), (1, 0)]" by simp
  note t = team_partition[OF h1 h2 h3 h3a h3w h4 h5 h6 h7]
  note r = t[THEN conjunct1]
  have r1: "resolve ex_ign ex_agent ex_weapon (?E ! 1) (?ps ! 0) = Inr (E' ! 1)"
    using r[rule_format, of "(0, 1)"] by simp
  have r2: "resolve ex_ign ex_agent ex_weapon (?E ! 0) (?ps ! 1) = Inr (E' ! 0)"
    using r[rule_format, of "(1, 0)"] by simp
  show ?thesis
    apply (rule exI[of _ t1], rule exI[of _ t2], rule exI[of _ E'])
    apply (intro conjI)
           apply (rule h1)
          apply (rule r1)
         apply (rule r2)
        apply (rule t[THEN conjunct2, THEN conjunct1])
       apply (rule t[THEN conjunct2, THEN conjunct2, THEN conjunct1])
      apply (rule t[THEN conjunct2, THEN conjunct2, THEN conjunct2, THEN conjunct1])
     apply (rule t[THEN conjunct2, THEN conjunct2, THEN conjunct2, THEN conjunct2, THEN conjunct1])
    apply (rule t[THEN conjunct2, THEN conjunct2, THEN conjunct2, THEN conjunct2, THEN conjunct2])
    done
qed





subsection \<open>Round records\<close>







subsection \<open>What the pipeline changes in the payload\<close>




subsection \<open>The order of the links\<close>

lemma is_digit_code: "is_digit c \<longleftrightarrow> 48 \<le> (of_char c :: nat) \<and> (of_char c :: nat) \<le> 57"
  unfolding is_digit_def less_eq_char_def by simp

lemma digit_val_less: "is_digit c \<Longrightarrow> is_digit d \<Longrightarrow> digit_val c < digit_val d \<longleftrightarrow> c < d"
  unfolding is_digit_code digit_val_def less_char_def by arith

lemma digit_val_bound: "is_digit c \<Longrightarrow> digit_val c < 10"
  unfolding is_digit_code digit_val_def by arith

lemma number_bound: "list_all is_digit cs \<Longrightarrow> number cs < 10 ^ length cs"
proof (induction cs)
  case Nil
  then show ?case by simp
next
  case (Cons c cs)
  then have "digit_val c \<le> 9" "number cs < 10 ^ length cs"
    using digit_val_bound[of c] by simp_all
  then have "digit_val c * 10 ^ length cs + number cs < 9 * 10 ^ length cs + 10 ^ length cs"
    by (meson add_le_less_mono mult_le_mono1)
  then show ?case by simp
qed

lemma number_less_lex:
  assumes "length a = length b" and "list_all is_digit a" and "list_all is_digit b"
      and "number a < number b"
  shows "a < b"
  using assms
proof (induction a b rule: list_induct2)
  case Nil
  then show ?case by simp
next
  case (Cons c cs d ds)
  then have dc: "is_digit c" "is_digit d" and all: "list_all is_digit cs" "list_all is_digit ds"
    by simp_all
  consider "c < d" | "c = d" | "d < c" by (metis linorder_less_linear)
  then show ?case
  proof cases
    case 1
    then show ?thesis by simp
  next
    case 2
    with Cons.prems(3) Cons.hyps have "number cs < number ds" by simp
    from Cons.IH[OF all this] 2 show ?thesis by simp
  next
    case 3
    then have "digit_val d < digit_val c" using digit_val_less[OF dc(2,1)] by simp
    then have "Suc (digit_val d) * 10 ^ length cs \<le> digit_val c * 10 ^ length cs"
      by (intro mult_le_mono1) simp
    moreover have "number ds < 10 ^ length cs"
      using number_bound[OF all(2)] Cons.hyps by simp
    ultimately have "number (d # ds) < number (c # cs)"
      using Cons.hyps by simp
    with Cons.prems(3) show ?thesis by simp
  qed
qed

text \<open>
  Claim C9, as amended. \<open>process_series\<close> walks the links in the order of
  \<open>sort_links\<close>: ascending in the text after the last \<^verbatim>\<open>=\<close>, compared as a string,
  character by character; links with the same key keep their order. For two links
  whose keys are digit strings of the same length, the link with the smaller number
  stands before the other.
\<close>

theorem sort_links_order:
  "sorted (map link_key (sort_links hrefs)) \<and>
   length (sort_links hrefs) = length hrefs \<and>
   (\<forall>k. filter (\<lambda>x. link_key x = k) (sort_links hrefs) = filter (\<lambda>x. link_key x = k) hrefs) \<and>
   (\<forall>i j. i < length hrefs \<and> j < length hrefs \<and>
          list_all is_digit (link_key (sort_links hrefs ! i)) \<and>
          list_all is_digit (link_key (sort_links hrefs ! j)) \<and>
          length (link_key (sort_links hrefs ! i)) = length (link_key (sort_links hrefs ! j)) \<and>
          number (link_key (sort_links hrefs ! i)) < number (link_key (sort_links hrefs ! j))
          \<longrightarrow> i < j)"
proof -
  let ?s = "sort_links hrefs"
  have s: "sorted (map link_key ?s)" by (simp add: sort_links_def)
  have l: "length ?s = length hrefs" by (simp add: sort_links_def)
  have st: "\<forall>k. filter (\<lambda>x. link_key x = k) ?s = filter (\<lambda>x. link_key x = k) hrefs"
    by (simp add: sort_links_def sort_key_stable)
  have "\<forall>i j. i < length hrefs \<and> j < length hrefs \<and>
          list_all is_digit (link_key (?s ! i)) \<and> list_all is_digit (link_key (?s ! j)) \<and>
          length (link_key (?s ! i)) = length (link_key (?s ! j)) \<and>
          number (link_key (?s ! i)) < number (link_key (?s ! j))
          \<longrightarrow> i < j"
  proof (intro allI impI)
    fix i j
    assume h: "i < length hrefs \<and> j < length hrefs \<and>
          list_all is_digit (link_key (?s ! i)) \<and> list_all is_digit (link_key (?s ! j)) \<and>
          length (link_key (?s ! i)) = length (link_key (?s ! j)) \<and>
          number (link_key (?s ! i)) < number (link_key (?s ! j))"
    then have lt: "link_key (?s ! i) < link_key (?s ! j)"
      by (intro number_less_lex) simp_all
    show "i < j"
    proof (rule ccontr)
      assume "\<not> i < j"
      then have "j \<le> i" by simp
      with s h l have "map link_key ?s ! j \<le> map link_key ?s ! i"
        by (intro sorted_nth_mono) simp_all
      with h l have "link_key (?s ! j) \<le> link_key (?s ! i)" by simp
      with lt show False by simp
    qed
  qed
  with s l st show ?thesis by blast
qed

theorem sort_links_order_witness:
  "sort_links [''/series/9?match=20'', ''/series/9?match=10'']
     = [''/series/9?match=10'', ''/series/9?match=20''] \<and>
   sorted (map link_key (sort_links [''/series/9?match=20'', ''/series/9?match=10''])) \<and>
   filter (\<lambda>x. link_key x = ''10'') (sort_links [''/series/9?match=20'', ''/series/9?match=10''])
     = [''/series/9?match=10''] \<and>
   number (link_key (sort_links [''/series/9?match=20'', ''/series/9?match=10''] ! 0)) = 10 \<and>
   number (link_key (sort_links [''/series/9?match=20'', ''/series/9?match=10''] ! 1)) = 20 \<and>
   (0::nat) < 1"
proof -
  let ?h = "[''/series/9?match=20'', ''/series/9?match=10'']"
  note t = sort_links_order[of ?h]
  have e: "sort_links ?h = [''/series/9?match=10'', ''/series/9?match=20'']" by code_simp
  have f: "filter (\<lambda>x. link_key x = ''10'') ?h = [''/series/9?match=10'']" by code_simp
  have n: "number (link_key (sort_links ?h ! 0)) = 10" "number (link_key (sort_links ?h ! 1)) = 20"
    by code_simp+
  have pre: "0 < length ?h \<and> 1 < length ?h \<and>
          list_all is_digit (link_key (sort_links ?h ! 0)) \<and>
          list_all is_digit (link_key (sort_links ?h ! 1)) \<and>
          length (link_key (sort_links ?h ! 0)) = length (link_key (sort_links ?h ! 1)) \<and>
          number (link_key (sort_links ?h ! 0)) < number (link_key (sort_links ?h ! 1))"
    by code_simp
  note c = t[THEN conjunct2, THEN conjunct2, THEN conjunct2, rule_format, of 0 1, OF pre]
  note st = t[THEN conjunct2, THEN conjunct2, THEN conjunct1, rule_format, of "''10''"]
  show ?thesis
    apply (intro conjI)
         apply (rule e)
        apply (rule t[THEN conjunct1])
       apply (rule trans[OF st f])
      apply (rule n(1))
     apply (rule n(2))
    apply (rule c)
    done
qed

text \<open>
  Claim C9 as stated fails: the keys \<^verbatim>\<open>9\<close> and \<^verbatim>\<open>10\<close> are compared as strings, so
  the link of match 10 is processed before the link of match 9.
\<close>

theorem string_order_counterexample:
  "sort_links [''/series/9?match=9'', ''/series/9?match=10'']
     = [''/series/9?match=10'', ''/series/9?match=9''] \<and>
   number (link_key ''/series/9?match=9'') = 9 \<and>
   number (link_key ''/series/9?match=10'') = 10"
  by code_simp

end
